theory Spec2Isabelle
  imports Main
begin

section \<open>Dependency sets (class DependencySet of ufl/algorithms/dependencies.py)\<close>

text \<open>
  A \<open>DependencySet\<close> object has three fields: the two flags \<open>runtime\<close> and
  \<open>coordinates\<close> and the tuple \<open>basisfunctions\<close> of flags, one per basis function.
  The constructor is \<open>DependencySet(basisfunctions, runtime=False, coordinates=False)\<close>.
\<close>

record depset =
  runtime :: bool
  coordinates :: bool
  basisfunctions :: "bool list"

definition DependencySet :: "bool list \<Rightarrow> bool \<Rightarrow> bool \<Rightarrow> depset" where
  "DependencySet bfs rt co = \<lparr>runtime = rt, coordinates = co, basisfunctions = bfs\<rparr>"

text \<open>\<open>iter\<close>: \<open>chain((self.runtime, self.coordinates), self.basisfunctions)\<close>.\<close>

definition iter_ds :: "depset \<Rightarrow> bool list" where
  "iter_ds d = runtime d # coordinates d # basisfunctions d"

definition size_ds :: "depset \<Rightarrow> nat" where
  "size_ds d = length (iter_ds d)"

text \<open>
  \<open>covers\<close>: the loop over \<open>zip(self.iter(), other.iter())\<close> returns False at the first
  pair \<open>(a, b)\<close> of a flag \<open>a\<close> of self and a flag \<open>b\<close> of other with \<open>b and not a\<close>, and True when the pairs are exhausted.
\<close>

fun covers_loop :: "(bool \<times> bool) list \<Rightarrow> bool" where
  "covers_loop [] = True"
| "covers_loop ((a, b) # rest) = (if b \<and> \<not> a then False else covers_loop rest)"

definition covers :: "depset \<Rightarrow> depset \<Rightarrow> bool" where
  "covers self other = covers_loop (zip (iter_ds self) (iter_ds other))"

text \<open>
  \<open>__cmp__\<close>: the loop over \<open>izip(self.iter(), other.iter())\<close> returns \<open>-1\<close> at the
  first pair with \<open>a < b\<close>, \<open>+1\<close> at the first pair with \<open>a > 1\<close>, and \<open>0\<close> when
  the pairs are exhausted. The flags are Python booleans, which compare as the integers
  0 and 1; the second test compares the flag with the literal \<open>1\<close>, as the source does.
\<close>

fun cmp_loop :: "(bool \<times> bool) list \<Rightarrow> int" where
  "cmp_loop [] = 0"
| "cmp_loop ((a, b) # rest) =
     (if (of_bool a :: int) < of_bool b then - 1
      else if (of_bool a :: int) > 1 then 1
      else cmp_loop rest)"

definition cmp_ds :: "depset \<Rightarrow> depset \<Rightarrow> int" where
  "cmp_ds self other = cmp_loop (zip (iter_ds self) (iter_ds other))"

text \<open>
  DependencySet is an old-style class that defines \<open>__cmp__\<close> and neither \<open>__eq__\<close> nor
  \<open>__ne__\<close>, so \<open>a == b\<close> is \<open>a.__cmp__(b) == 0\<close> and \<open>a != b\<close> is
  \<open>a.__cmp__(b) != 0\<close>.
\<close>

definition eq_ds :: "depset \<Rightarrow> depset \<Rightarrow> bool" where
  "eq_ds a b = (cmp_ds a b = 0)"

definition ne_ds :: "depset \<Rightarrow> depset \<Rightarrow> bool" where
  "ne_ds a b = (cmp_ds a b \<noteq> 0)"

text \<open>
  \<open>__hash__\<close> returns \<open>hash(tuple(self.iter()))\<close>. Python's built-in hash of a tuple is
  not code of this repository: it is the parameter \<open>hsh\<close> of the model.
\<close>

definition hash_ds :: "(bool list \<Rightarrow> int) \<Rightarrow> depset \<Rightarrow> int" where
  "hash_ds hsh d = hsh (iter_ds d)"

text \<open>
  Modelled from the spec: \<open>or_tuples\<close> and \<open>and_tuples\<close> of ufl.common, which are not
  among the source files. The spec describes them as the pairwise logical OR and the
  pairwise logical AND of two flag tuples, truncating silently to the shorter tuple
  (pairwise iteration).
\<close>

definition or_tuples :: "bool list \<Rightarrow> bool list \<Rightarrow> bool list" where
  "or_tuples a b = map (\<lambda>(i, j). i \<or> j) (zip a b)"

definition and_tuples :: "bool list \<Rightarrow> bool list \<Rightarrow> bool list" where
  "and_tuples a b = map (\<lambda>(i, j). i \<and> j) (zip a b)"

text \<open>\<open>__or__\<close> and \<open>__and__\<close> build a new DependencySet and leave both operands as they are.\<close>

definition union_ds :: "depset \<Rightarrow> depset \<Rightarrow> depset" where
  "union_ds self other =
     DependencySet (or_tuples (basisfunctions self) (basisfunctions other))
       (runtime self \<or> runtime other)
       (coordinates self \<or> coordinates other)"

definition inter_ds :: "depset \<Rightarrow> depset \<Rightarrow> depset" where
  "inter_ds self other =
     DependencySet (and_tuples (basisfunctions self) (basisfunctions other))
       (runtime self \<and> runtime other)
       (coordinates self \<and> coordinates other)"

text \<open>The all-false dependency set with \<open>n\<close> basis-function flags.\<close>

definition empty_deps :: "nat \<Rightarrow> depset" where
  "empty_deps n = DependencySet (replicate n False) False False"


section \<open>Expression nodes\<close>

text \<open>
  The expression classes live in modules that are not among the source files (only the
  abstract base class \<open>Expr\<close> of ufl/expr.py is); the splitter needs of a node its class,
  its operands, its identity as an object (for the tests \<open>a is b\<close>) and, for the counted
  classes, its count. Every node therefore carries an object identity as its first
  component; \<open>a is b\<close> is equality of these identities. Nodes are immutable, so a node is
  a value and a shared subexpression is the same value at two places.

  \<^item> \<open>Terminal\<close>: a terminal of a class that has no handler of its own in the splitter:
    the literal classes \<open>Zero\<close>, \<open>FloatValue\<close>, \<open>IntValue\<close>, the index list \<open>MultiIndex\<close>,
    and any other terminal class, by name.
  \<^item> \<open>BasisFunction\<close>, \<open>Function\<close> (with its subclasses such as \<open>Constant\<close>): with the count
    that identifies the argument or coefficient in the renumbering of the form data.
  \<^item> \<open>Variable\<close>: the wrapped expression and the count of its label.
  \<^item> \<open>SpatialDerivative\<close>: the differentiated operand and the index operand.
  \<^item> \<open>Operator\<close>: any other non-terminal class, by name, with its operands.
\<close>

datatype terminal_class = Zero | FloatValue string | IntValue int | MultiIndex | OtherTerminal string

datatype expr =
    Terminal nat terminal_class
  | BasisFunction nat nat
  | Function nat nat
  | FacetNormal nat
  | Variable nat expr nat
  | SpatialDerivative nat expr expr
  | Operator nat string "expr list"

fun oid :: "expr \<Rightarrow> nat" where
  "oid (Terminal i k) = i"
| "oid (BasisFunction i c) = i"
| "oid (Function i c) = i"
| "oid (FacetNormal i) = i"
| "oid (Variable i e c) = i"
| "oid (SpatialDerivative i f ii) = i"
| "oid (Operator i n xs) = i"

text \<open>
  \<open>operands\<close>: the immediate child nodes. A Variable also has its Label object as an
  operand; labels are not modelled as nodes (the splitter never visits the operands of a
  Variable), only their count is kept.
\<close>

fun operands :: "expr \<Rightarrow> expr list" where
  "operands (Terminal i k) = []"
| "operands (BasisFunction i c) = []"
| "operands (Function i c) = []"
| "operands (FacetNormal i) = []"
| "operands (Variable i e c) = [e]"
| "operands (SpatialDerivative i f ii) = [f, ii]"
| "operands (Operator i n xs) = xs"

text \<open>\<open>label_of x\<close> is \<open>x.label()._count\<close> for a Variable; \<open>isinstance(x, Variable)\<close> is
  \<open>label_of x \<noteq> None\<close>.\<close>

fun label_of :: "expr \<Rightarrow> nat option" where
  "label_of (Variable i e c) = Some c"
| "label_of (Terminal i k) = None"
| "label_of (BasisFunction i c) = None"
| "label_of (Function i c) = None"
| "label_of (FacetNormal i) = None"
| "label_of (SpatialDerivative i f ii) = None"
| "label_of (Operator i n xs) = None"

text \<open>\<open>isinstance(x, (MultiIndex, Zero, FloatValue, IntValue))\<close>, the \<open>_skiptypes\<close> of
  \<open>DependencySplitter.expr\<close>.\<close>

fun is_skiptype :: "expr \<Rightarrow> bool" where
  "is_skiptype (Terminal i MultiIndex) = True"
| "is_skiptype (Terminal i Zero) = True"
| "is_skiptype (Terminal i (FloatValue v)) = True"
| "is_skiptype (Terminal i (IntValue v)) = True"
| "is_skiptype (Terminal i (OtherTerminal n)) = False"
| "is_skiptype (BasisFunction i c) = False"
| "is_skiptype (Function i c) = False"
| "is_skiptype (FacetNormal i) = False"
| "is_skiptype (Variable i e c) = False"
| "is_skiptype (SpatialDerivative i f ii) = False"
| "is_skiptype (Operator i n xs) = False"

section \<open>Variable info, code structure and the state of a splitting run\<close>

text \<open>
  \<open>VariableInfo\<close> holds the variable and its dependency set (its \<open>diffcache\<close> is created
  empty and never touched by the splitter; it is left out). \<open>CodeStructure\<close> holds the
  dict \<open>variableinfo\<close> from label counts to VariableInfo and the defaultdict \<open>stacks\<close> from
  DependencySet keys to lists of VariableInfo, kept here as an association list in
  insertion order.
\<close>

record vinfo =
  variable :: expr
  deps :: depset

record codestructure =
  variableinfo :: "nat \<rightharpoonup> vinfo"
  stacks :: "(depset \<times> vinfo list) list"

text \<open>
  The state a run threads through: the code structure of the DependencySplitter, and the
  two process-wide counters the constructors it calls draw from: the next free object
  identity and the global count of labels.
\<close>

record splitter =
  cs :: codestructure
  next_oid :: nat
  globalcount :: nat

text \<open>The caller's read-only inputs: the two renumbering dicts of the form data (keyed by
  the count of the argument or coefficient) and the two lists of dependency sets.\<close>

record tables =
  basisfunction_renumbering :: "nat \<rightharpoonup> nat"
  coefficient_renumbering :: "nat \<rightharpoonup> nat"
  basisfunction_deps :: "depset list"
  function_deps :: "depset list"

datatype error = UFLException string | IndexError | UnboundLocalError

type_synonym 'a result = "error + 'a"

text \<open>
  A dict finds a stored key for a probe when the hashes are equal and \<open>stored == probe\<close>
  holds (the same object satisfies both). \<open>stacks[deps].append(vinfo)\<close> on the defaultdict
  appends to the list of the first matching key, or adds the key with a one-element list.
\<close>

definition key_match :: "(bool list \<Rightarrow> int) \<Rightarrow> depset \<Rightarrow> depset \<Rightarrow> bool" where
  "key_match hsh stored probe = (hash_ds hsh stored = hash_ds hsh probe \<and> eq_ds stored probe)"

fun stacks_get :: "(bool list \<Rightarrow> int) \<Rightarrow> (depset \<times> vinfo list) list \<Rightarrow> depset \<Rightarrow> vinfo list option" where
  "stacks_get hsh [] k = None"
| "stacks_get hsh ((k', st) # rest) k = (if key_match hsh k' k then Some st else stacks_get hsh rest k)"

fun stacks_append :: "(bool list \<Rightarrow> int) \<Rightarrow> (depset \<times> vinfo list) list \<Rightarrow> depset \<Rightarrow> vinfo \<Rightarrow> (depset \<times> vinfo list) list" where
  "stacks_append hsh [] k v = [(k, [v])]"
| "stacks_append hsh ((k', st) # rest) k v =
     (if key_match hsh k' k then (k', st @ [v]) # rest else (k', st) # stacks_append hsh rest k v)"


section \<open>The dependency splitter (class DependencySplitter)\<close>

text \<open>\<open>DependencySplitter.__init__\<close> creates an empty code structure; the two counters are
  those of the process at that moment.\<close>

definition CodeStructure :: codestructure where
  "CodeStructure = \<lparr>variableinfo = Map.empty, stacks = []\<rparr>"

definition DependencySplitter :: "nat \<Rightarrow> nat \<Rightarrow> splitter" where
  "DependencySplitter oid0 count0 = \<lparr>cs = CodeStructure, next_oid = oid0, globalcount = count0\<rparr>"

definition make_empty_deps :: "tables \<Rightarrow> depset" where
  "make_empty_deps T = DependencySet (replicate (length (basisfunction_deps T)) False) False False"

text \<open>
  Modelled from the spec: the constructors \<open>Variable(e)\<close> and
  \<open>Variable(e, label=Label(count))\<close> of ufl.variable, which are not among the source
  files. A variable wraps an expression and carries a process-unique integer label: a
  label made without a count takes the global count and advances it; a label made with a
  count keeps the global count above it. The new Variable is a new object. The result is
  the variable together with \<open>v.label()._count\<close>.
\<close>

fun Variable_new :: "expr \<Rightarrow> nat option \<Rightarrow> splitter \<Rightarrow> (expr \<times> nat) \<times> splitter" where
  "Variable_new e None s =
     ((Variable (next_oid s) e (globalcount s), globalcount s),
      s\<lparr>next_oid := Suc (next_oid s), globalcount := Suc (globalcount s)\<rparr>)"
| "Variable_new e (Some c) s =
     ((Variable (next_oid s) e c, c),
      s\<lparr>next_oid := Suc (next_oid s), globalcount := max (globalcount s) (Suc c)\<rparr>)"

text \<open>
  \<open>register_expression(e, deps, count=None)\<close>: the variable \<open>v\<close> is \<open>e\<close> itself when no
  count is given and \<open>e\<close> is a Variable, and a new Variable otherwise. When the count of
  its label is not yet in \<open>variableinfo\<close>, a new VariableInfo is stored under it and
  appended to \<open>stacks[deps]\<close>; otherwise the stored one is returned (the source only
  writes a debug message).
\<close>

definition register_expression ::
  "(bool list \<Rightarrow> int) \<Rightarrow> expr \<Rightarrow> depset \<Rightarrow> nat option \<Rightarrow> splitter \<Rightarrow> vinfo \<times> splitter" where
  "register_expression hsh e d count s =
     (let ((v, c), s1) =
            (case count of
               None \<Rightarrow> (case label_of e of Some c \<Rightarrow> ((e, c), s) | None \<Rightarrow> Variable_new e None s)
             | Some c \<Rightarrow> Variable_new e (Some c) s)
      in case variableinfo (cs s1) c of
           None \<Rightarrow>
             (let vi = \<lparr>variable = v, deps = d\<rparr>
              in (vi, s1\<lparr>cs := \<lparr>variableinfo = (variableinfo (cs s1))(c \<mapsto> vi),
                                stacks = stacks_append hsh (stacks (cs s1)) d vi\<rparr>\<rparr>))
         | Some vi \<Rightarrow> (vi, s1))"

text \<open>The handlers. Each returns the rewritten expression with its dependency set, and
  the state; \<open>ufl_assert\<close> raises a UFLException when its condition is false.\<close>

definition terminal :: "tables \<Rightarrow> expr \<Rightarrow> splitter \<Rightarrow> ((expr \<times> depset) \<times> splitter) result" where
  "terminal T x s = Inr ((x, make_empty_deps T), s)"

text \<open>\<open>self.basisfunction_deps[i]\<close> raises IndexError when the slot is beyond the list.\<close>

fun basis_function :: "tables \<Rightarrow> expr \<Rightarrow> splitter \<Rightarrow> ((expr \<times> depset) \<times> splitter) result" where
  "basis_function T (BasisFunction j c) s =
     (case basisfunction_renumbering T c of
        None \<Rightarrow> Inl (UFLException ''Cannot find basis function in renumbering dict!'')
      | Some i \<Rightarrow>
          if i < length (basisfunction_deps T)
          then Inr ((BasisFunction j c, basisfunction_deps T ! i), s)
          else Inl IndexError)"

fun function_rule :: "tables \<Rightarrow> expr \<Rightarrow> splitter \<Rightarrow> ((expr \<times> depset) \<times> splitter) result" where
  "function_rule T (Function j c) s =
     (case coefficient_renumbering T c of
        None \<Rightarrow> Inl (UFLException ''Cannot find function in renumbering dict!'')
      | Some i \<Rightarrow>
          if i < length (function_deps T)
          then Inr ((Function j c, function_deps T ! i), s)
          else Inl IndexError)"

definition facet_normal :: "tables \<Rightarrow> expr \<Rightarrow> splitter \<Rightarrow> ((expr \<times> depset) \<times> splitter) result" where
  "facet_normal T x s = Inr ((x, (make_empty_deps T)\<lparr>runtime := True\<rparr>), s)"

fun variable_rule :: "expr \<Rightarrow> splitter \<Rightarrow> ((expr \<times> depset) \<times> splitter) result" where
  "variable_rule (Variable j e c) s =
     (case variableinfo (cs s) c of
        None \<Rightarrow> Inl (UFLException ''Have not handled variable in time'')
      | Some vi \<Rightarrow> Inr ((variable vi, deps vi), s))"

text \<open>\<open>spatial_derivative(x, f, ii)\<close>: \<open>f\<close> and \<open>ii\<close> are the results of visiting the two
  operands of \<open>x\<close>; \<open>type(x)(f[0], ii[0])\<close> is a new SpatialDerivative object.\<close>

fun spatial_derivative ::
  "tables \<Rightarrow> expr \<Rightarrow> expr \<times> depset \<Rightarrow> expr \<times> depset \<Rightarrow> splitter \<Rightarrow> ((expr \<times> depset) \<times> splitter) result" where
  "spatial_derivative T (SpatialDerivative j x0 x1) f ii s =
     (let deps0 = (make_empty_deps T)\<lparr>runtime := True\<rparr>;
          d = union_ds (snd f) deps0
      in if oid (fst f) = oid x0
         then Inr ((SpatialDerivative j x0 x1, d), s)
         else Inr ((SpatialDerivative (next_oid s) (fst f) (fst ii), d),
                   s\<lparr>next_oid := Suc (next_oid s)\<rparr>))"

text \<open>The loop of \<open>expr\<close> that makes variables of the operands: an operand of a skip type
  is kept, any other is registered and replaced by \<open>(vinfo.variable, vinfo.deps)\<close>.\<close>

fun promote :: "(bool list \<Rightarrow> int) \<Rightarrow> (expr \<times> depset) list \<Rightarrow> splitter \<Rightarrow> (expr \<times> depset) list \<times> splitter" where
  "promote hsh [] s = ([], s)"
| "promote hsh (p # oldops) s =
     (if is_skiptype (fst p)
      then (let (ops, s') = promote hsh oldops s in (p # ops, s'))
      else (let (vi, s1) = register_expression hsh (fst p) (snd p) None s;
                (ops, s') = promote hsh oldops s1
            in ((variable vi, deps vi) # ops, s')))"

text \<open>
  \<open>expr(x, *ops)\<close>, the handler of every non-terminal class without a handler of its own:
  \<open>d\<close> is \<open>ops[0][1]\<close> united with the dependency sets of the other operands in turn
  (\<open>d |= o[1]\<close> rebinds \<open>d\<close> to \<open>d | o[1]\<close>); when \<open>o[1] != d\<close> holds for some operand, the
  operands are promoted; \<open>x\<close> is returned when each rewritten operand \<open>is\<close> the operand of
  \<open>x\<close> at its place (over \<open>zip\<close>), and \<open>type(x)(*ops)\<close>, a new object of the class of \<open>x\<close>,
  otherwise.
\<close>

fun combine :: "(expr \<times> depset) list \<Rightarrow> depset option" where
  "combine [] = None"
| "combine (p # ops) = Some (foldl union_ds (snd p) (map snd ops))"

fun expr_rule ::
  "(bool list \<Rightarrow> int) \<Rightarrow> expr \<Rightarrow> (expr \<times> depset) list \<Rightarrow> splitter \<Rightarrow> ((expr \<times> depset) \<times> splitter) result" where
  "expr_rule hsh (Operator j n xs) ops s =
     (case combine ops of
        None \<Rightarrow> Inl (UFLException ''Non-terminal with no ops should never occur.'')
      | Some d \<Rightarrow>
          (let (ops1, s1) = (if list_ex (\<lambda>p. ne_ds (snd p) d) ops then promote hsh ops s else (ops, s));
               ops2 = map fst ops1
           in if list_all (\<lambda>(a, b). oid a = oid b) (zip ops2 xs)
              then Inr ((Operator j n xs, d), s1)
              else Inr ((Operator (next_oid s1) n ops2, d), s1\<lparr>next_oid := Suc (next_oid s1)\<rparr>)))"

text \<open>
  Modelled from the spec: \<open>Transformer.visit\<close> of ufl.algorithms.transformations, which is
  not among the source files. The splitter is a bottom-up tree transformer with one
  rule per node variant: a node goes to the handler of its class, a class without a
  handler of its own to \<open>terminal\<close> or \<open>expr\<close>; a handler that takes operands
  (\<open>spatial_derivative\<close>, \<open>expr\<close>) receives the results of visiting the operands of the node
  from left to right, the \<open>variable\<close> handler takes none and the Variable's operands are
  not visited.
\<close>

fun visit :: "tables \<Rightarrow> (bool list \<Rightarrow> int) \<Rightarrow> expr \<Rightarrow> splitter \<Rightarrow> ((expr \<times> depset) \<times> splitter) result"
and visit_ops :: "tables \<Rightarrow> (bool list \<Rightarrow> int) \<Rightarrow> expr list \<Rightarrow> splitter \<Rightarrow> ((expr \<times> depset) list \<times> splitter) result" where
  "visit T hsh (Terminal j k) s = terminal T (Terminal j k) s"
| "visit T hsh (BasisFunction j c) s = basis_function T (BasisFunction j c) s"
| "visit T hsh (Function j c) s = function_rule T (Function j c) s"
| "visit T hsh (FacetNormal j) s = facet_normal T (FacetNormal j) s"
| "visit T hsh (Variable j e c) s = variable_rule (Variable j e c) s"
| "visit T hsh (SpatialDerivative j x0 x1) s =
     (case visit T hsh x0 s of
        Inl err \<Rightarrow> Inl err
      | Inr (f, s1) \<Rightarrow>
          (case visit T hsh x1 s1 of
             Inl err \<Rightarrow> Inl err
           | Inr (ii, s2) \<Rightarrow> spatial_derivative T (SpatialDerivative j x0 x1) f ii s2))"
| "visit T hsh (Operator j n xs) s =
     (case visit_ops T hsh xs s of
        Inl err \<Rightarrow> Inl err
      | Inr (ops, s1) \<Rightarrow> expr_rule hsh (Operator j n xs) ops s1)"
| "visit_ops T hsh [] s = Inr ([], s)"
| "visit_ops T hsh (x # xs) s =
     (case visit T hsh x s of
        Inl err \<Rightarrow> Inl err
      | Inr (r, s1) \<Rightarrow>
          (case visit_ops T hsh xs s1 of
             Inl err \<Rightarrow> Inl err
           | Inr (rs, s2) \<Rightarrow> Inr (r # rs, s2)))"

text \<open>\<open>handle(v)\<close>: a variable whose label is registered is answered from the registry;
  otherwise its expression is split and the result registered under the label of \<open>v\<close>.\<close>

fun handle :: "tables \<Rightarrow> (bool list \<Rightarrow> int) \<Rightarrow> expr \<Rightarrow> splitter \<Rightarrow> (vinfo \<times> splitter) result" where
  "handle T hsh (Variable j e c) s =
     (case variableinfo (cs s) c of
        Some vi \<Rightarrow> Inr (vi, s)
      | None \<Rightarrow>
          (case visit T hsh e s of
             Inl err \<Rightarrow> Inl err
           | Inr ((e', d), s1) \<Rightarrow> Inr (register_expression hsh e' d (Some c) s1)))"
| "handle T hsh v s = Inl (UFLException ''Expecting Variable.'')"

section \<open>The entry point \<open>split_by_dependencies\<close>\<close>

text \<open>
  Modelled from the spec: \<open>extract_variables\<close> of ufl.algorithms.analysis, which is not
  among the source files. It extracts every named-variable node reachable from the input
  expression in post-order, so that dependencies come before dependents, each label
  once.
\<close>

fun post_traversal :: "expr \<Rightarrow> expr list" where
  "post_traversal (Terminal j k) = [Terminal j k]"
| "post_traversal (BasisFunction j c) = [BasisFunction j c]"
| "post_traversal (Function j c) = [Function j c]"
| "post_traversal (FacetNormal j) = [FacetNormal j]"
| "post_traversal (Variable j e c) = post_traversal e @ [Variable j e c]"
| "post_traversal (SpatialDerivative j x0 x1) =
     post_traversal x0 @ post_traversal x1 @ [SpatialDerivative j x0 x1]"
| "post_traversal (Operator j n xs) = concat (map post_traversal xs) @ [Operator j n xs]"

fun collect_variables :: "expr list \<Rightarrow> nat list \<Rightarrow> expr list" where
  "collect_variables [] handled = []"
| "collect_variables (x # xs) handled =
     (case label_of x of
        None \<Rightarrow> collect_variables xs handled
      | Some c \<Rightarrow>
          if c \<in> set handled then collect_variables xs handled
          else x # collect_variables xs (c # handled))"

definition extract_variables :: "expr \<Rightarrow> expr list" where
  "extract_variables e = collect_variables (post_traversal e) []"

text \<open>The loop \<open>for v in variables: vinfo = ds.handle(v)\<close>; \<open>vinfo\<close> is unbound after a loop
  over no variable.\<close>

fun handle_all ::
  "tables \<Rightarrow> (bool list \<Rightarrow> int) \<Rightarrow> expr list \<Rightarrow> vinfo option \<Rightarrow> splitter \<Rightarrow> (vinfo \<times> splitter) result" where
  "handle_all T hsh [] cur s = (case cur of None \<Rightarrow> Inl UnboundLocalError | Some vi \<Rightarrow> Inr (vi, s))"
| "handle_all T hsh (v # vs) cur s =
     (case handle T hsh v s of
        Inl err \<Rightarrow> Inl err
      | Inr (vi, s1) \<Rightarrow> handle_all T hsh vs (Some vi) s1)"

text \<open>
  \<open>split_by_dependencies(expression, formdata, basisfunction_deps, function_deps)\<close>. The
  arguments \<open>oid0\<close> and \<open>count0\<close> are the two counters of the process when the call
  starts. The result is the VariableInfo of the root and the final state of the splitter,
  whose \<open>cs\<close> is the returned code structure.
\<close>

definition split_by_dependencies ::
  "tables \<Rightarrow> (bool list \<Rightarrow> int) \<Rightarrow> nat \<Rightarrow> nat \<Rightarrow> expr \<Rightarrow> (vinfo \<times> splitter) result" where
  "split_by_dependencies T hsh oid0 count0 expression =
     (let variables = extract_variables expression;
          ds = DependencySplitter oid0 count0
      in case label_of expression of
           Some c \<Rightarrow>
             (case variables of
                [] \<Rightarrow> Inl IndexError
              | _ # _ \<Rightarrow>
                  if oid expression = oid (last variables)
                  then handle_all T hsh variables None ds
                  else Inl (UFLException ''Expecting the last result from extract_variables to be the input variable...''))
         | None \<Rightarrow>
             (let ((v, c), ds1) = Variable_new expression None ds
              in handle_all T hsh (variables @ [v]) None ds1))"

section \<open>Invariants of a splitting run\<close>

text \<open>
  The invariant of the code structure that every registration keeps:
  \<^item> a VariableInfo stored under a label holds a Variable with that label, and is found
    in the stack that the dict returns for its dependency set;
  \<^item> a VariableInfo in the stack of a key matches the key as the dict compares keys, and
    is the one stored in \<open>variableinfo\<close> under its label;
  \<^item> no VariableInfo occurs twice in the stacks, and no key occurs twice.
\<close>

definition registry_inv :: "(bool list \<Rightarrow> int) \<Rightarrow> splitter \<Rightarrow> bool" where
  "registry_inv hsh s =
     ((\<forall>c vi. variableinfo (cs s) c = Some vi \<longrightarrow>
         label_of (variable vi) = Some c \<and>
         (\<exists>st. stacks_get hsh (stacks (cs s)) (deps vi) = Some st \<and> vi \<in> set st)) \<and>
      (\<forall>(k, st) \<in> set (stacks (cs s)). \<forall>vi \<in> set st.
         key_match hsh k (deps vi) \<and>
         (\<exists>c. label_of (variable vi) = Some c \<and> variableinfo (cs s) c = Some vi)) \<and>
      distinct (concat (map snd (stacks (cs s)))) \<and>
      distinct (map fst (stacks (cs s))))"

text \<open>
  The caller's tables are well formed when every dependency set in them has one flag per
  basis function (the spec leaves tuples of different lengths undefined).
\<close>

definition wf_tables :: "tables \<Rightarrow> bool" where
  "wf_tables T =
     (\<forall>d \<in> set (basisfunction_deps T) \<union> set (function_deps T).
        length (basisfunctions d) = length (basisfunction_deps T))"

text \<open>
  What holds of the registry in every state a run reaches, for a run that started when
  the next free object identity was \<open>oid0\<close>: the variable stored under a label carries
  that label and is an object made during the run, every label in use is below the
  global count (so a fresh label is new), and every stored dependency set has one flag
  per basis function.
\<close>

definition run_inv :: "tables \<Rightarrow> nat \<Rightarrow> splitter \<Rightarrow> bool" where
  "run_inv T oid0 s =
     (oid0 \<le> next_oid s \<and>
      (\<forall>c vi. variableinfo (cs s) c = Some vi \<longrightarrow>
         label_of (variable vi) = Some c \<and> c < globalcount s \<and> oid0 \<le> oid (variable vi) \<and>
         length (basisfunctions (deps vi)) = length (basisfunction_deps T)))"

text \<open>
  What holds of a visited operand \<open>p = (expression, dependency set)\<close> in a state: the
  dependency set has one flag per basis function; an expression that is a Variable is
  the registered variable of its label, with this dependency set; an expression of a
  skip type has the all-false set.
\<close>

definition out_ok :: "tables \<Rightarrow> splitter \<Rightarrow> expr \<times> depset \<Rightarrow> bool" where
  "out_ok T s p =
     (length (basisfunctions (snd p)) = length (basisfunction_deps T) \<and>
      (\<forall>c. label_of (fst p) = Some c \<longrightarrow>
         variableinfo (cs s) c = Some \<lparr>variable = fst p, deps = snd p\<rparr>) \<and>
      (is_skiptype (fst p) \<longrightarrow> snd p = make_empty_deps T))"

text \<open>
  \<open>promoted s p p'\<close>: the operand \<open>p\<close> has been promoted to \<open>p'\<close> in the state \<open>s\<close>. An
  operand of a skip type is kept as it is. Any other operand keeps its dependency set and
  its expression is replaced by a named variable of that very expression: the expression
  itself when it is a Variable already, and else a new Variable that wraps it; this
  variable is registered in \<open>s\<close> under its label with the dependency set of \<open>p\<close>.
\<close>

definition promoted :: "splitter \<Rightarrow> expr \<times> depset \<Rightarrow> expr \<times> depset \<Rightarrow> bool" where
  "promoted s p p' =
     (if is_skiptype (fst p) then p' = p
      else snd p' = snd p \<and>
           ((label_of (fst p) \<noteq> None \<and> fst p' = fst p) \<or>
            (label_of (fst p) = None \<and> (\<exists>i c. fst p' = Variable i (fst p) c))) \<and>
           (\<exists>c. label_of (fst p') = Some c \<and>
                variableinfo (cs s) c = Some \<lparr>variable = fst p', deps = snd p\<rparr>))"

text \<open>
  The three ways \<open>register_expression(e, deps, count)\<close> chooses the variable \<open>v\<close> and the
  label count \<open>c\<close> it looks up, with what the choice does to the two counters: a new
  Variable with the given count; \<open>e\<close> itself when it is a Variable; a new Variable with
  a fresh label.
\<close>

definition reg_choice :: "expr \<Rightarrow> nat option \<Rightarrow> splitter \<Rightarrow> splitter \<Rightarrow> expr \<Rightarrow> nat \<Rightarrow> bool" where
  "reg_choice e count s s' v c =
     ((count = Some c \<and> v = Variable (next_oid s) e c \<and> next_oid s' = Suc (next_oid s) \<and>
         globalcount s' = max (globalcount s) (Suc c)) \<or>
      (count = None \<and> label_of e = Some c \<and> v = e \<and> next_oid s' = next_oid s \<and>
         globalcount s' = globalcount s) \<or>
      (count = None \<and> label_of e = None \<and> c = globalcount s \<and> v = Variable (next_oid s) e c \<and>
         next_oid s' = Suc (next_oid s) \<and> globalcount s' = Suc (globalcount s)))"

section \<open>Concrete inputs used by the examples\<close>

definition ex_a :: depset where
  "ex_a = DependencySet [True, False] True False"

definition ex_b :: depset where
  "ex_b = DependencySet [False, True] True False"

definition ex_c :: depset where
  "ex_c = DependencySet [False, False] False False"

text \<open>A stand-in for the hash of a flag tuple: the tuple read as a binary numeral.\<close>

definition ex_hsh :: "bool list \<Rightarrow> int" where
  "ex_hsh bs = foldr (\<lambda>b n. 2 * n + of_bool b) bs 1"

text \<open>A form with two basis functions (counts 7 and 8) and one coefficient (count 9).\<close>

definition ex_T :: tables where
  "ex_T = \<lparr>basisfunction_renumbering = [7 \<mapsto> 0, 8 \<mapsto> 1], coefficient_renumbering = [9 \<mapsto> 0],
         basisfunction_deps = [DependencySet [True, False] False False, DependencySet [False, True] False False],
         function_deps = [DependencySet [False, False] True True]\<rparr>"

definition ex_vi :: vinfo where
  "ex_vi = \<lparr>variable = Variable 20 (BasisFunction 1 7) 3, deps = DependencySet [True, False] False False\<rparr>"

definition ex_s0 :: splitter where
  "ex_s0 = DependencySplitter 30 4"

definition ex_s1 :: splitter where
  "ex_s1 = \<lparr>cs = \<lparr>variableinfo = [3 \<mapsto> ex_vi], stacks = [(DependencySet [True, False] False False, [ex_vi])]\<rparr>,
          next_oid = 30, globalcount = 4\<rparr>"

definition ex_sum :: expr where
  "ex_sum = Operator 2 ''Sum'' [Terminal 0 (FloatValue ''1.23''), Terminal 1 (IntValue 2)]"

definition ex_dv :: expr where
  "ex_dv = SpatialDerivative 2 (BasisFunction 1 7) (Terminal 0 MultiIndex)"

text \<open>The product \<open>1.23 * v\<close> of scenario B, and what splitting it yields.\<close>

definition ex_prod :: expr where
  "ex_prod = Operator 2 ''Product'' [Terminal 0 (FloatValue ''1.23''), BasisFunction 1 7]"

definition ex_vi_v :: vinfo where
  "ex_vi_v = \<lparr>variable = Variable 4 (BasisFunction 1 7) 1, deps = DependencySet [True, False] False False\<rparr>"

definition ex_vi_root :: vinfo where
  "ex_vi_root =
     \<lparr>variable = Variable 6 (Operator 5 ''Product''
                    [Terminal 0 (FloatValue ''1.23''), Variable 4 (BasisFunction 1 7) 1]) 0,
      deps = DependencySet [True, False] False False\<rparr>"

definition ex_final :: splitter where
  "ex_final =
     \<lparr>cs = \<lparr>variableinfo = [1 \<mapsto> ex_vi_v, 0 \<mapsto> ex_vi_root],
             stacks = [(DependencySet [True, False] False False, [ex_vi_v, ex_vi_root])]\<rparr>,
      next_oid = 7, globalcount = 2\<rparr>"

text \<open>The product \<open>v * u\<close> of the two basis functions, and what splitting it yields.\<close>

definition ex_uv :: expr where
  "ex_uv = Operator 2 ''Product'' [BasisFunction 0 7, BasisFunction 1 8]"

definition ex_vi_a :: vinfo where
  "ex_vi_a = \<lparr>variable = Variable 4 (BasisFunction 0 7) 1, deps = DependencySet [True, False] False False\<rparr>"

definition ex_vi_b :: vinfo where
  "ex_vi_b = \<lparr>variable = Variable 5 (BasisFunction 1 8) 2, deps = DependencySet [False, True] False False\<rparr>"

definition ex_vi_uv :: vinfo where
  "ex_vi_uv =
     \<lparr>variable = Variable 7 (Operator 6 ''Product''
                    [Variable 4 (BasisFunction 0 7) 1, Variable 5 (BasisFunction 1 8) 2]) 0,
      deps = DependencySet [True, True] False False\<rparr>"

definition ex_final_uv :: splitter where
  "ex_final_uv =
     \<lparr>cs = \<lparr>variableinfo = [1 \<mapsto> ex_vi_a, 2 \<mapsto> ex_vi_b, 0 \<mapsto> ex_vi_uv],
             stacks = [(DependencySet [True, False] False False, [ex_vi_a]),
                       (DependencySet [False, True] False False, [ex_vi_b]),
                       (DependencySet [True, True] False False, [ex_vi_uv])]\<rparr>,
      next_oid = 8, globalcount = 3\<rparr>"

text \<open>The state in which the root of \<open>v * u\<close> is visited (the root has been wrapped in a
  Variable with object identity 3 and label 0), and the state after the visit.\<close>

definition ex_sa :: splitter where
  "ex_sa = \<lparr>cs = CodeStructure, next_oid = 4, globalcount = 1\<rparr>"

definition ex_sd :: splitter where
  "ex_sd =
     \<lparr>cs = \<lparr>variableinfo = [1 \<mapsto> ex_vi_a, 2 \<mapsto> ex_vi_b],
             stacks = [(DependencySet [True, False] False False, [ex_vi_a]),
                       (DependencySet [False, True] False False, [ex_vi_b])]\<rparr>,
      next_oid = 7, globalcount = 3\<rparr>"

section \<open>The algebra of dependency sets\<close>

lemma covers_loop_iff: "covers_loop ps = (\<forall>(a, b) \<in> set ps. b \<longrightarrow> a)"
  by (induction ps rule: covers_loop.induct) auto

text \<open>The comparison never returns \<open>+1\<close>: a flag is never greater than 1. It returns 0
  exactly when \<open>covers\<close> holds.\<close>

lemma cmp_loop_covers: "cmp_loop ps = (if covers_loop ps then 0 else - 1)"
  by (induction ps rule: cmp_loop.induct) auto

lemma eq_ds_covers: "eq_ds a b = covers a b"
  by (simp add: eq_ds_def cmp_ds_def covers_def cmp_loop_covers)

lemma ne_ds_covers: "ne_ds a b = (\<not> covers a b)"
  by (simp add: ne_ds_def cmp_ds_def covers_def cmp_loop_covers)

lemma or_tuples_commute: "or_tuples a b = or_tuples b a"
  unfolding or_tuples_def
  by (induction a b rule: list_induct2') auto

lemma and_tuples_commute: "and_tuples a b = and_tuples b a"
  unfolding and_tuples_def
  by (induction a b rule: list_induct2') auto

lemma or_tuples_assoc: "or_tuples (or_tuples a b) c = or_tuples a (or_tuples b c)"
  unfolding or_tuples_def
proof (induction a arbitrary: b c)
  case Nil
  then show ?case by simp
next
  case (Cons x a)
  then show ?case by (cases b; cases c) auto
qed

lemma and_tuples_assoc: "and_tuples (and_tuples a b) c = and_tuples a (and_tuples b c)"
  unfolding and_tuples_def
proof (induction a arbitrary: b c)
  case Nil
  then show ?case by simp
next
  case (Cons x a)
  then show ?case by (cases b; cases c) auto
qed

lemma covers_loop_refl: "covers_loop (zip xs xs)"
  by (induction xs) auto

lemma covers_loop_or_left: "covers_loop (zip (or_tuples a b) a)"
  unfolding or_tuples_def
  by (induction a b rule: list_induct2') auto

lemma covers_loop_or_right: "covers_loop (zip (or_tuples a b) b)"
  unfolding or_tuples_def
  by (induction a b rule: list_induct2') auto

lemma covers_refl: "covers a a"
  by (simp add: covers_def covers_loop_refl)

lemma covers_all_false: "list_all Not (iter_ds b) \<Longrightarrow> covers a b"
  by (auto simp: covers_def covers_loop_iff list_all_iff dest: set_zip_rightD)

lemma covers_union_left: "covers (union_ds a b) a"
  by (simp add: covers_def iter_ds_def union_ds_def DependencySet_def covers_loop_or_left)

lemma covers_union_right: "covers (union_ds a b) b"
  by (simp add: covers_def iter_ds_def union_ds_def DependencySet_def covers_loop_or_right)

lemma covers_pointwise:
  assumes "length (basisfunctions a) = length (basisfunctions b)"
  shows "covers a b = (\<forall>i < length (iter_ds b). iter_ds b ! i \<longrightarrow> iter_ds a ! i)"
proof -
  have len: "length (iter_ds a) = length (iter_ds b)"
    using assms by (simp add: iter_ds_def)
  show ?thesis
    unfolding covers_def covers_loop_iff
    using len by (auto simp: set_zip)
qed

text \<open>
  C8. Union and intersection are commutative and associative; \<open>a.covers(a)\<close> holds;
  \<open>a.covers(b)\<close> holds whenever every flag of \<open>b\<close> is false; \<open>(a | b).covers(a)\<close> and
  \<open>(a | b).covers(b)\<close> hold; and for flag tuples of equal length \<open>a.covers(b)\<close> is true
  exactly when every flag set in \<open>b\<close> is set in \<open>a\<close>. The operations are functions of
  their operands and build a new value: no operand is changed.
\<close>

theorem depset_algebra:
  "union_ds a b = union_ds b a \<and> inter_ds a b = inter_ds b a \<and>
   union_ds (union_ds a b) c = union_ds a (union_ds b c) \<and>
   inter_ds (inter_ds a b) c = inter_ds a (inter_ds b c) \<and>
   covers a a \<and> (list_all Not (iter_ds b) \<longrightarrow> covers a b) \<and>
   covers (union_ds a b) a \<and> covers (union_ds a b) b \<and>
   (length (basisfunctions a) = length (basisfunctions b) \<longrightarrow>
      covers a b = (\<forall>i < length (iter_ds b). iter_ds b ! i \<longrightarrow> iter_ds a ! i))"
proof -
  have 1: "union_ds a b = union_ds b a"
    by (auto simp: union_ds_def DependencySet_def or_tuples_commute)
  have 2: "inter_ds a b = inter_ds b a"
    by (auto simp: inter_ds_def DependencySet_def and_tuples_commute)
  have 3: "union_ds (union_ds a b) c = union_ds a (union_ds b c)"
    by (simp add: union_ds_def DependencySet_def or_tuples_assoc)
  have 4: "inter_ds (inter_ds a b) c = inter_ds a (inter_ds b c)"
    by (simp add: inter_ds_def DependencySet_def and_tuples_assoc)
  show ?thesis
    using 1 2 3 4 covers_refl covers_all_false covers_union_left covers_union_right covers_pointwise
    by blast
qed

theorem depset_algebra_witness:
  "union_ds ex_a ex_b = union_ds ex_b ex_a \<and> inter_ds ex_a ex_b = inter_ds ex_b ex_a \<and>
   union_ds (union_ds ex_a ex_b) ex_c = union_ds ex_a (union_ds ex_b ex_c) \<and>
   inter_ds (inter_ds ex_a ex_b) ex_c = inter_ds ex_a (inter_ds ex_b ex_c) \<and>
   covers ex_a ex_a \<and> list_all Not (iter_ds ex_c) \<and> covers ex_a ex_c \<and>
   covers (union_ds ex_a ex_b) ex_a \<and> covers (union_ds ex_a ex_b) ex_b \<and>
   length (basisfunctions ex_a) = length (basisfunctions ex_c) \<and>
   union_ds ex_a ex_b = DependencySet [True, True] True False \<and>
   inter_ds ex_a ex_b = DependencySet [False, False] True False \<and>
   \<not> covers ex_a ex_b \<and> \<not> covers ex_c ex_a"
  using depset_algebra [of ex_a ex_b ex_c] depset_algebra [of ex_a ex_c ex_c]
  by (simp add: ex_a_def ex_b_def ex_c_def covers_def iter_ds_def union_ds_def inter_ds_def
      DependencySet_def or_tuples_def and_tuples_def)

text \<open>
  C3. The comparison of two dependency sets: \<open>a == b\<close> is true for the set \<open>a\<close> with only
  the runtime flag and the all-false set \<open>b\<close>, whose flags differ (and \<open>b == a\<close> is false):
  the second test of \<open>__cmp__\<close> compares a flag with the literal 1 and never succeeds, so
  the comparison answers whether \<open>a\<close> covers \<open>b\<close>.
\<close>

theorem eq_ds_at_failing_input:
  "eq_ds (DependencySet [False] True False) (DependencySet [False] False False) \<and>
   iter_ds (DependencySet [False] True False) \<noteq> iter_ds (DependencySet [False] False False) \<and>
   \<not> eq_ds (DependencySet [False] False False) (DependencySet [False] True False)"
  by (simp add: eq_ds_def cmp_ds_def iter_ds_def DependencySet_def)

section \<open>The rules of the splitter\<close>

text \<open>
  C5. Visiting a named-variable node whose label is registered in the code structure
  returns the variable and the dependency set cached in its VariableInfo, and leaves the
  state as it is; when the label is not registered, the visit fails with a UFLException
  and yields no dependency set.
\<close>

theorem variable_visit:
  "(variableinfo (cs s) c = Some vi \<longrightarrow>
      visit T hsh (Variable j e c) s = Inr ((variable vi, deps vi), s)) \<and>
   (variableinfo (cs s) c = None \<longrightarrow>
      (\<exists>msg. visit T hsh (Variable j e c) s = Inl (UFLException msg)))"
  by simp

theorem variable_visit_witness:
  "variableinfo (cs ex_s1) 3 = Some ex_vi \<and>
   visit ex_T ex_hsh (Variable 2 (BasisFunction 1 7) 3) ex_s1 = Inr ((variable ex_vi, deps ex_vi), ex_s1) \<and>
   variableinfo (cs ex_s0) 3 = None \<and>
   (\<exists>msg. visit ex_T ex_hsh (Variable 2 (BasisFunction 1 7) 3) ex_s0 = Inl (UFLException msg))"
  using variable_visit [of ex_s1 3 ex_vi ex_T ex_hsh 2 "BasisFunction 1 7"]
    variable_visit [of ex_s0 3 ex_vi ex_T ex_hsh 2 "BasisFunction 1 7"]
  by (simp add: ex_s1_def ex_s0_def DependencySplitter_def CodeStructure_def)

text \<open>
  C9. The dependency set computed for a spatial derivative is the union of the
  dependency set of the visited first operand with the set that has only the runtime
  flag; the coordinates flag is that of the operand.
\<close>

theorem spatial_derivative_deps:
  assumes "visit T hsh (SpatialDerivative j x0 x1) s = Inr ((e, d), s')"
  shows "\<exists>f s1. visit T hsh x0 s = Inr (f, s1) \<and>
           d = union_ds (snd f) (DependencySet (replicate (length (basisfunction_deps T)) False) True False) \<and>
           runtime d \<and> coordinates d = coordinates (snd f)"
  using assms
  by (auto simp: Let_def make_empty_deps_def DependencySet_def union_ds_def
      split: sum.splits prod.splits if_splits)

text \<open>
  C6. When the label that \<open>register_expression\<close> looks up (the given count, or else the
  label of \<open>e\<close> when \<open>e\<close> is a Variable, or else the fresh label of the new Variable) is
  already in \<open>variableinfo\<close>, the stored VariableInfo is returned and \<open>variableinfo\<close> and
  \<open>stacks\<close> are as before.
\<close>

theorem register_expression_existing:
  assumes "count = Some c \<or> (count = None \<and> label_of e = Some c) \<or>
           (count = None \<and> label_of e = None \<and> c = globalcount s)"
    and "variableinfo (cs s) c = Some vi"
  shows "fst (register_expression hsh e d count s) = vi \<and>
         variableinfo (cs (snd (register_expression hsh e d count s))) = variableinfo (cs s) \<and>
         stacks (cs (snd (register_expression hsh e d count s))) = stacks (cs s)"
  using assms
  by (auto simp: register_expression_def)


theorem spatial_derivative_deps_witness:
  "visit ex_T ex_hsh (SpatialDerivative 2 (BasisFunction 1 7) (Terminal 0 MultiIndex)) ex_s0 =
     Inr ((SpatialDerivative 2 (BasisFunction 1 7) (Terminal 0 MultiIndex),
           DependencySet [True, False] True False), ex_s0) \<and>
   (\<exists>f s1. visit ex_T ex_hsh (BasisFunction 1 7) ex_s0 = Inr (f, s1) \<and>
      DependencySet [True, False] True False =
        union_ds (snd f) (DependencySet (replicate (length (basisfunction_deps ex_T)) False) True False) \<and>
      runtime (DependencySet [True, False] True False) \<and>
      coordinates (DependencySet [True, False] True False) = coordinates (snd f))"
proof -
  have run: "visit ex_T ex_hsh (SpatialDerivative 2 (BasisFunction 1 7) (Terminal 0 MultiIndex)) ex_s0 =
     Inr ((SpatialDerivative 2 (BasisFunction 1 7) (Terminal 0 MultiIndex),
           DependencySet [True, False] True False), ex_s0)"
    by (simp add: ex_T_def terminal_def make_empty_deps_def DependencySet_def union_ds_def
        or_tuples_def)
  from spatial_derivative_deps [OF run] run show ?thesis by simp
qed

theorem register_expression_existing_witness:
  "variableinfo (cs ex_s1) 3 = Some ex_vi \<and>
   fst (register_expression ex_hsh (BasisFunction 1 7) ex_c (Some 3) ex_s1) = ex_vi \<and>
   variableinfo (cs (snd (register_expression ex_hsh (BasisFunction 1 7) ex_c (Some 3) ex_s1))) = variableinfo (cs ex_s1) \<and>
   stacks (cs (snd (register_expression ex_hsh (BasisFunction 1 7) ex_c (Some 3) ex_s1))) = stacks (cs ex_s1)"
proof -
  have h: "variableinfo (cs ex_s1) 3 = Some ex_vi" by (simp add: ex_s1_def)
  from register_expression_existing [of "Some 3" 3 "BasisFunction 1 7" ex_s1 ex_vi ex_hsh ex_c] h
  show ?thesis by simp
qed


lemma list_all_zip_oid:
  "map oid ys = map oid xs \<Longrightarrow> list_all (\<lambda>(a, b). oid a = oid b) (zip ys xs)"
proof (induction ys arbitrary: xs)
  case Nil
  then show ?case by simp
next
  case (Cons y ys)
  then show ?case by (cases xs) auto
qed

lemma expr_rule_reuse:
  assumes "expr_rule hsh (Operator j n xs) ops s = Inr ((e, d), s')"
    and "map oid (operands e) = map oid xs"
  shows "e = Operator j n xs"
  using assms
  by (auto simp: Let_def split: option.splits prod.splits if_splits dest: list_all_zip_oid)

lemma expr_rule_no_promotion:
  assumes "expr_rule hsh (Operator j n xs) ops s = Inr (r, s')"
    and "combine ops = Some d" and "\<forall>p \<in> set ops. snd p = d"
  shows "cs s' = cs s"
proof -
  have "\<not> list_ex (\<lambda>p. ne_ds (snd p) d) ops"
    using assms(3) by (auto simp: list_ex_iff ne_ds_covers covers_refl)
  then show ?thesis
    using assms(1,2) by (auto simp: Let_def split: if_splits)
qed

text \<open>
  C4. A generic node, or a spatial derivative, that comes back from the splitter with
  operands identical (as objects) to the operands of the original node is the original
  node itself: the splitter builds a new node only when some rewritten operand is another
  object. When every operand of a generic node has the combined dependency set of the
  node, the rule of the node registers no variable; the rule of a spatial derivative
  never does.
\<close>

theorem identity_preservation:
  "(visit T hsh (Operator j n xs) s = Inr ((e, d), s') \<and> map oid (operands e) = map oid xs
      \<longrightarrow> e = Operator j n xs) \<and>
   (visit T hsh (SpatialDerivative j xf xi) s = Inr ((e, d), s') \<and>
      map oid (operands e) = [oid xf, oid xi]
      \<longrightarrow> e = SpatialDerivative j xf xi) \<and>
   (visit_ops T hsh xs s = Inr (ops, sa) \<and> combine ops = Some d \<and> (\<forall>p \<in> set ops. snd p = d) \<and>
      visit T hsh (Operator j n xs) s = Inr ((e, d'), s')
      \<longrightarrow> d' = d \<and> cs s' = cs sa) \<and>
   (visit T hsh xf s = Inr (f, sa) \<and> visit T hsh xi sa = Inr (ii, sb) \<and>
      visit T hsh (SpatialDerivative j xf xi) s = Inr ((e, d), s')
      \<longrightarrow> cs s' = cs sb)"
proof (intro conjI impI)
  assume "visit T hsh (Operator j n xs) s = Inr ((e, d), s') \<and> map oid (operands e) = map oid xs"
  then show "e = Operator j n xs"
    by (auto simp del: expr_rule.simps split: sum.splits prod.splits dest: expr_rule_reuse)
next
  assume "visit T hsh (SpatialDerivative j xf xi) s = Inr ((e, d), s') \<and>
      map oid (operands e) = [oid xf, oid xi]"
  then show "e = SpatialDerivative j xf xi"
    by (auto simp: Let_def split: sum.splits prod.splits if_splits)
next
  assume a: "visit_ops T hsh xs s = Inr (ops, sa) \<and> combine ops = Some d \<and> (\<forall>p \<in> set ops. snd p = d) \<and>
      visit T hsh (Operator j n xs) s = Inr ((e, d'), s')"
  then have r: "expr_rule hsh (Operator j n xs) ops sa = Inr ((e, d'), s')"
    by (auto simp del: expr_rule.simps)
  from a r show "d' = d" by (auto simp: Let_def split: prod.splits if_splits)
  from a r show "cs s' = cs sa" using expr_rule_no_promotion by blast
next
  assume "visit T hsh xf s = Inr (f, sa) \<and> visit T hsh xi sa = Inr (ii, sb) \<and>
      visit T hsh (SpatialDerivative j xf xi) s = Inr ((e, d), s')"
  then show "cs s' = cs sb"
    by (auto simp: Let_def split: if_splits)
qed

theorem identity_preservation_witness:
  "visit ex_T ex_hsh ex_sum ex_s0 = Inr ((ex_sum, ex_c), ex_s0) \<and>
   map oid (operands ex_sum) = map oid [Terminal 0 (FloatValue ''1.23''), Terminal 1 (IntValue 2)] \<and>
   visit ex_T ex_hsh ex_dv ex_s0 = Inr ((ex_dv, DependencySet [True, False] True False), ex_s0) \<and>
   map oid (operands ex_dv) = [oid (BasisFunction 1 7), oid (Terminal 0 MultiIndex)] \<and>
   visit_ops ex_T ex_hsh [Terminal 0 (FloatValue ''1.23''), Terminal 1 (IntValue 2)] ex_s0 =
     Inr ([(Terminal 0 (FloatValue ''1.23''), ex_c), (Terminal 1 (IntValue 2), ex_c)], ex_s0) \<and>
   combine [(Terminal 0 (FloatValue ''1.23''), ex_c), (Terminal 1 (IntValue 2), ex_c)] = Some ex_c \<and>
   visit ex_T ex_hsh (BasisFunction 1 7) ex_s0 =
     Inr ((BasisFunction 1 7, DependencySet [True, False] False False), ex_s0) \<and>
   visit ex_T ex_hsh (Terminal 0 MultiIndex) ex_s0 = Inr ((Terminal 0 MultiIndex, ex_c), ex_s0)"
proof -
  have ops: "visit_ops ex_T ex_hsh [Terminal 0 (FloatValue ''1.23''), Terminal 1 (IntValue 2)] ex_s0 =
     Inr ([(Terminal 0 (FloatValue ''1.23''), ex_c), (Terminal 1 (IntValue 2), ex_c)], ex_s0)"
    by (simp add: terminal_def make_empty_deps_def ex_T_def ex_c_def)
  have comb: "combine [(Terminal 0 (FloatValue ''1.23''), ex_c), (Terminal 1 (IntValue 2), ex_c)] = Some ex_c"
    by (simp add: union_ds_def ex_c_def DependencySet_def or_tuples_def)
  have nodiff: "\<not> ne_ds ex_c ex_c"
    by (simp add: ne_ds_covers covers_refl)
  have sum: "visit ex_T ex_hsh ex_sum ex_s0 = Inr ((ex_sum, ex_c), ex_s0)"
    unfolding ex_sum_def using ops comb nodiff by simp
  have f: "visit ex_T ex_hsh (BasisFunction 1 7) ex_s0 =
     Inr ((BasisFunction 1 7, DependencySet [True, False] False False), ex_s0)"
    by (simp add: ex_T_def)
  have ii: "visit ex_T ex_hsh (Terminal 0 MultiIndex) ex_s0 = Inr ((Terminal 0 MultiIndex, ex_c), ex_s0)"
    by (simp add: terminal_def make_empty_deps_def ex_T_def ex_c_def)
  have dv: "visit ex_T ex_hsh ex_dv ex_s0 = Inr ((ex_dv, DependencySet [True, False] True False), ex_s0)"
    unfolding ex_dv_def using f ii
    by (simp add: make_empty_deps_def ex_T_def union_ds_def DependencySet_def or_tuples_def)
  have a: "map oid (operands ex_sum) = map oid [Terminal 0 (FloatValue ''1.23''), Terminal 1 (IntValue 2)]"
    by (simp add: ex_sum_def)
  have b: "map oid (operands ex_dv) = [oid (BasisFunction 1 7), oid (Terminal 0 MultiIndex)]"
    by (simp add: ex_dv_def)
  note thm1 = identity_preservation [where T = ex_T and hsh = ex_hsh and j = 2 and n = "''Sum''"
      and xs = "[Terminal 0 (FloatValue ''1.23''), Terminal 1 (IntValue 2)]" and s = ex_s0
      and e = ex_sum and d = ex_c and s' = ex_s0 and d' = ex_c and sa = ex_s0
      and ops = "[(Terminal 0 (FloatValue ''1.23''), ex_c), (Terminal 1 (IntValue 2), ex_c)]"]
  note thm2 = identity_preservation [where T = ex_T and hsh = ex_hsh and j = 2
      and xf = "BasisFunction 1 7" and xi = "Terminal 0 MultiIndex" and s = ex_s0
      and e = ex_dv and d = "DependencySet [True, False] True False" and s' = ex_s0
      and f = "(BasisFunction 1 7, DependencySet [True, False] False False)" and sa = ex_s0
      and ii = "(Terminal 0 MultiIndex, ex_c)" and sb = ex_s0]
  from thm1 thm2 sum dv ops comb f ii a b show ?thesis
    by (simp add: ex_sum_def ex_dv_def)
qed

section \<open>The invariant of the code structure\<close>

lemma key_match_refl: "key_match hsh d d"
  by (simp add: key_match_def eq_ds_covers covers_refl)

lemma stacks_get_Some_mem:
  "stacks_get hsh S k = Some st \<Longrightarrow> \<exists>k'. (k', st) \<in> set S \<and> key_match hsh k' k"
  by (induction S) (auto split: if_splits)

lemma stacks_get_None:
  "stacks_get hsh S k = None \<Longrightarrow> (k', st) \<in> set S \<Longrightarrow> \<not> key_match hsh k' k"
  by (induction S) (auto split: if_splits)

lemma stacks_append_get_other:
  "stacks_get hsh S k = Some st \<Longrightarrow>
   \<exists>st'. stacks_get hsh (stacks_append hsh S d v) k = Some st' \<and> set st \<subseteq> set st'"
  by (induction S) (auto split: if_splits)

lemma stacks_append_get_self:
  "\<exists>st. stacks_get hsh (stacks_append hsh S d v) d = Some st \<and> v \<in> set st"
  by (induction S) (auto simp: key_match_refl)

lemma stacks_append_mem:
  "(k, st) \<in> set (stacks_append hsh S d v) \<Longrightarrow>
   (k, st) \<in> set S \<or> (key_match hsh k d \<and> (\<exists>st0. st = st0 @ [v] \<and> ((k, st0) \<in> set S \<or> (st0 = [] \<and> k = d))))"
  by (induction S) (auto simp: key_match_refl split: if_splits)

lemma stacks_append_set_concat:
  "set (concat (map snd (stacks_append hsh S d v))) = insert v (set (concat (map snd S)))"
proof (induction S)
  case Nil
  then show ?case by simp
next
  case (Cons a S)
  obtain k st where a: "a = (k, st)" by (cases a)
  show ?case
  proof (cases "key_match hsh k d")
    case True
    then show ?thesis unfolding a by auto
  next
    case False
    then show ?thesis unfolding a using Cons.IH by auto
  qed
qed

lemma stacks_append_distinct:
  "distinct (concat (map snd S)) \<Longrightarrow> v \<notin> set (concat (map snd S)) \<Longrightarrow>
   distinct (concat (map snd (stacks_append hsh S d v)))"
proof (induction S)
  case Nil
  then show ?case by simp
next
  case (Cons a S)
  obtain k st where a: "a = (k, st)" by (cases a)
  show ?case
  proof (cases "key_match hsh k d")
    case True
    with Cons.prems show ?thesis unfolding a by auto
  next
    case False
    have "set st \<inter> set (concat (map snd (stacks_append hsh S d v))) = {}"
      using Cons.prems unfolding a stacks_append_set_concat by auto
    moreover have "distinct (concat (map snd (stacks_append hsh S d v)))"
      using Cons.IH Cons.prems unfolding a by auto
    ultimately show ?thesis
      using False Cons.prems unfolding a by auto
  qed
qed

lemma stacks_append_keys:
  "set (map fst (stacks_append hsh S d v)) \<subseteq> insert d (set (map fst S))"
proof (induction S)
  case Nil
  then show ?case by simp
next
  case (Cons a S)
  obtain k st where a: "a = (k, st)" by (cases a)
  show ?case
    using Cons.IH unfolding a by (cases "key_match hsh k d") auto
qed

lemma stacks_append_distinct_keys:
  "distinct (map fst S) \<Longrightarrow> distinct (map fst (stacks_append hsh S d v))"
proof (induction S)
  case Nil
  then show ?case by simp
next
  case (Cons a S)
  obtain k st where a: "a = (k, st)" by (cases a)
  show ?case
  proof (cases "key_match hsh k d")
    case True
    with Cons a show ?thesis by simp
  next
    case False
    then have "k \<noteq> d" using key_match_refl by auto
    moreover have "k \<notin> fst ` set S" using Cons.prems a by auto
    ultimately have "k \<notin> fst ` set (stacks_append hsh S d v)"
      using stacks_append_keys [of hsh S d v] by auto
    with Cons a False show ?thesis by simp
  qed
qed


lemma registry_inv_cs: "cs s = cs s' \<Longrightarrow> registry_inv hsh s = registry_inv hsh s'"
  by (simp add: registry_inv_def)

lemma registry_inv_init: "registry_inv hsh (DependencySplitter oid0 count0)"
  by (simp add: registry_inv_def DependencySplitter_def CodeStructure_def)

lemma Variable_new_cs: "Variable_new e count s = ((v, c), s1) \<Longrightarrow> cs s1 = cs s \<and> label_of v = Some c"
  by (cases count) auto

lemma register_core:
  assumes inv: "registry_inv hsh s"
    and none: "variableinfo (cs s) c = None"
    and lab: "label_of v = Some c"
    and vi: "vi = \<lparr>variable = v, deps = d\<rparr>"
    and s': "cs s' = \<lparr>variableinfo = (variableinfo (cs s))(c \<mapsto> vi),
                      stacks = stacks_append hsh (stacks (cs s)) d vi\<rparr>"
  shows "registry_inv hsh s'"
proof -
  let ?S = "stacks (cs s)"
  have old1: "\<And>c' vi'. variableinfo (cs s) c' = Some vi' \<Longrightarrow>
      label_of (variable vi') = Some c' \<and>
      (\<exists>st. stacks_get hsh ?S (deps vi') = Some st \<and> vi' \<in> set st)"
    using inv by (simp add: registry_inv_def)
  have old2: "\<And>k st vi'. (k, st) \<in> set ?S \<Longrightarrow> vi' \<in> set st \<Longrightarrow>
      key_match hsh k (deps vi') \<and>
      (\<exists>c'. label_of (variable vi') = Some c' \<and> variableinfo (cs s) c' = Some vi')"
    using inv by (fastforce simp: registry_inv_def)
  have old3: "distinct (concat (map snd ?S))" and old4: "distinct (map fst ?S)"
    using inv by (simp_all add: registry_inv_def)
  have fresh: "vi \<notin> set (concat (map snd ?S))"
  proof
    assume "vi \<in> set (concat (map snd ?S))"
    then obtain k st where "(k, st) \<in> set ?S" "vi \<in> set st" by auto
    from old2 [OF this] obtain c' where "label_of (variable vi) = Some c'"
      "variableinfo (cs s) c' = Some vi" by blast
    with lab vi none show False by simp
  qed
  have new1: "\<forall>c' vi'. variableinfo (cs s') c' = Some vi' \<longrightarrow>
      label_of (variable vi') = Some c' \<and>
      (\<exists>st. stacks_get hsh (stacks (cs s')) (deps vi') = Some st \<and> vi' \<in> set st)"
  proof (intro allI impI)
    fix c' vi'
    assume a: "variableinfo (cs s') c' = Some vi'"
    show "label_of (variable vi') = Some c' \<and>
      (\<exists>st. stacks_get hsh (stacks (cs s')) (deps vi') = Some st \<and> vi' \<in> set st)"
    proof (cases "c' = c")
      case True
      with a s' have "vi' = vi" by simp
      then show ?thesis
        using True lab vi s' stacks_append_get_self [of hsh ?S d vi] by simp
    next
      case False
      with a s' have "variableinfo (cs s) c' = Some vi'" by simp
      from old1 [OF this] obtain st where l: "label_of (variable vi') = Some c'"
        and g: "stacks_get hsh ?S (deps vi') = Some st" and m: "vi' \<in> set st" by blast
      from stacks_append_get_other [OF g, of d vi] m l s' show ?thesis by auto
    qed
  qed
  have new2: "\<forall>(k, st) \<in> set (stacks (cs s')). \<forall>vi' \<in> set st.
      key_match hsh k (deps vi') \<and>
      (\<exists>c'. label_of (variable vi') = Some c' \<and> variableinfo (cs s') c' = Some vi')"
  proof (intro ballI, clarify)
    fix k st vi'
    assume m: "(k, st) \<in> set (stacks (cs s'))" and v: "vi' \<in> set st"
    from m s' have m': "(k, st) \<in> set (stacks_append hsh ?S d vi)" by simp
    have keep: "\<And>k0 st0. (k0, st0) \<in> set ?S \<Longrightarrow> vi' \<in> set st0 \<Longrightarrow>
        key_match hsh k0 (deps vi') \<and>
        (\<exists>c'. label_of (variable vi') = Some c' \<and> variableinfo (cs s') c' = Some vi')"
    proof -
      fix k0 st0
      assume "(k0, st0) \<in> set ?S" "vi' \<in> set st0"
      from old2 [OF this] obtain c' where km: "key_match hsh k0 (deps vi')"
        and l: "label_of (variable vi') = Some c'" and r: "variableinfo (cs s) c' = Some vi'"
        by blast
      from r none have "c' \<noteq> c" by auto
      with km l r s' show "key_match hsh k0 (deps vi') \<and>
        (\<exists>c'. label_of (variable vi') = Some c' \<and> variableinfo (cs s') c' = Some vi')"
        by auto
    qed
    have new: "key_match hsh k d \<Longrightarrow> key_match hsh k (deps vi) \<and>
        (\<exists>c'. label_of (variable vi) = Some c' \<and> variableinfo (cs s') c' = Some vi)"
      using vi lab s' by simp
    from stacks_append_mem [OF m'] show "key_match hsh k (deps vi') \<and>
      (\<exists>c'. label_of (variable vi') = Some c' \<and> variableinfo (cs s') c' = Some vi')"
    proof
      assume "(k, st) \<in> set ?S"
      from keep [OF this v] show ?thesis .
    next
      assume "key_match hsh k d \<and>
        (\<exists>st0. st = st0 @ [vi] \<and> ((k, st0) \<in> set ?S \<or> st0 = [] \<and> k = d))"
      then obtain st0 where km: "key_match hsh k d" and st: "st = st0 @ [vi]"
        and or: "(k, st0) \<in> set ?S \<or> st0 = [] \<and> k = d" by blast
      show ?thesis
      proof (cases "vi' = vi")
        case True
        with new [OF km] show ?thesis by simp
      next
        case False
        with v st have v0: "vi' \<in> set st0" by simp
        with or have "(k, st0) \<in> set ?S" by auto
        from keep [OF this v0] show ?thesis .
      qed
    qed
  qed
  have new3: "distinct (concat (map snd (stacks (cs s'))))"
    using stacks_append_distinct [OF old3 fresh] s' by simp
  have new4: "distinct (map fst (stacks (cs s')))"
    using stacks_append_distinct_keys [OF old4] s' by simp
  from new1 new2 new3 new4 show ?thesis
    unfolding registry_inv_def by blast
qed

text \<open>What a call of \<open>register_expression\<close> does, case by case.\<close>

lemma register_expression_cases:
  assumes "register_expression hsh e d count s = (vi, s')"
  shows "\<exists>v c. label_of v = Some c \<and> reg_choice e count s s' v c \<and>
           ((variableinfo (cs s) c = Some vi \<and> cs s' = cs s) \<or>
            (variableinfo (cs s) c = None \<and> vi = \<lparr>variable = v, deps = d\<rparr> \<and>
             cs s' = \<lparr>variableinfo = (variableinfo (cs s))(c \<mapsto> vi),
                      stacks = stacks_append hsh (stacks (cs s)) d vi\<rparr>))"
proof (cases count)
  case (Some c)
  show ?thesis
  proof (cases "variableinfo (cs s) c")
    case None
    with Some assms show ?thesis
      by (intro exI [of _ "Variable (next_oid s) e c"] exI [of _ c])
        (auto simp: register_expression_def reg_choice_def Let_def)
  next
    case (Some a)
    with \<open>count = Some c\<close> assms show ?thesis
      by (intro exI [of _ "Variable (next_oid s) e c"] exI [of _ c])
        (auto simp: register_expression_def reg_choice_def Let_def)
  qed
next
  case None
  note cnt = this
  show ?thesis
  proof (cases "label_of e")
    case (Some c)
    show ?thesis
    proof (cases "variableinfo (cs s) c")
      case None
      with Some cnt assms show ?thesis
        by (intro exI [of _ e] exI [of _ c]) (auto simp: register_expression_def reg_choice_def Let_def)
    next
      case (Some a)
      with \<open>label_of e = Some c\<close> cnt assms show ?thesis
        by (intro exI [of _ e] exI [of _ c]) (auto simp: register_expression_def reg_choice_def Let_def)
    qed
  next
    case None
    show ?thesis
    proof (cases "variableinfo (cs s) (globalcount s)")
      case None
      with \<open>label_of e = None\<close> cnt assms show ?thesis
        by (intro exI [of _ "Variable (next_oid s) e (globalcount s)"] exI [of _ "globalcount s"])
          (auto simp: register_expression_def reg_choice_def Let_def)
    next
      case (Some a)
      with \<open>label_of e = None\<close> cnt assms show ?thesis
        by (intro exI [of _ "Variable (next_oid s) e (globalcount s)"] exI [of _ "globalcount s"])
          (auto simp: register_expression_def reg_choice_def Let_def)
    qed
  qed
qed

lemma register_expression_inv:
  assumes "registry_inv hsh s" and "register_expression hsh e d count s = (vi, s')"
  shows "registry_inv hsh s'"
proof -
  from register_expression_cases [OF assms(2)] obtain v c where
    lab: "label_of v = Some c" and
    or: "(variableinfo (cs s) c = Some vi \<and> cs s' = cs s) \<or>
            (variableinfo (cs s) c = None \<and> vi = \<lparr>variable = v, deps = d\<rparr> \<and>
             cs s' = \<lparr>variableinfo = (variableinfo (cs s))(c \<mapsto> vi),
                      stacks = stacks_append hsh (stacks (cs s)) d vi\<rparr>)" by blast
  from or show ?thesis
  proof
    assume "variableinfo (cs s) c = Some vi \<and> cs s' = cs s"
    with assms(1) show ?thesis using registry_inv_cs by metis
  next
    assume a: "variableinfo (cs s) c = None \<and> vi = \<lparr>variable = v, deps = d\<rparr> \<and>
             cs s' = \<lparr>variableinfo = (variableinfo (cs s))(c \<mapsto> vi),
                      stacks = stacks_append hsh (stacks (cs s)) d vi\<rparr>"
    from register_core [OF assms(1) _ lab] a show ?thesis by blast
  qed
qed

lemma promote_inv:
  "registry_inv hsh s \<Longrightarrow> promote hsh ops s = (ops', s') \<Longrightarrow> registry_inv hsh s'"
proof (induction ops arbitrary: s ops' s')
  case Nil
  then show ?case by simp
next
  case (Cons p ops)
  show ?case
  proof (cases "is_skiptype (fst p)")
    case True
    with Cons show ?thesis by (auto split: prod.splits)
  next
    case False
    obtain vi s1 where r: "register_expression hsh (fst p) (snd p) None s = (vi, s1)"
      by (cases "register_expression hsh (fst p) (snd p) None s")
    from register_expression_inv [OF Cons.prems(1) r] have "registry_inv hsh s1" .
    with Cons.IH Cons.prems(2) False r show ?thesis by (auto split: prod.splits)
  qed
qed

lemma expr_rule_inv:
  assumes "registry_inv hsh s" and "expr_rule hsh (Operator j n xs) ops s = Inr (r, s')"
  shows "registry_inv hsh s'"
proof -
  from assms(2) obtain d where d: "combine ops = Some d"
    by (cases "combine ops") auto
  obtain ops1 s1 where p: "(if list_ex (\<lambda>p. ne_ds (snd p) d) ops then promote hsh ops s else (ops, s)) = (ops1, s1)"
    by (cases "if list_ex (\<lambda>p. ne_ds (snd p) d) ops then promote hsh ops s else (ops, s)")
  have "registry_inv hsh s1"
    using p assms(1) promote_inv by (auto split: if_splits)
  moreover have "cs s' = cs s1"
    using assms(2) d p by (auto simp: Let_def split: if_splits)
  ultimately show ?thesis using registry_inv_cs by metis
qed

lemma visit_inv:
  "visit T hsh x s = Inr (r, s') \<Longrightarrow> registry_inv hsh s \<Longrightarrow> registry_inv hsh s'"
  "visit_ops T hsh xs s = Inr (rs, s') \<Longrightarrow> registry_inv hsh s \<Longrightarrow> registry_inv hsh s'"
proof (induction T hsh x s and T hsh xs s arbitrary: r s' and rs s' rule: visit_visit_ops.induct)
  case (1 T hsh j k s)
  then show ?case by (simp add: terminal_def)
next
  case (2 T hsh j c s)
  then show ?case by (auto split: option.splits if_splits)
next
  case (3 T hsh j c s)
  then show ?case by (auto split: option.splits if_splits)
next
  case (4 T hsh j s)
  then show ?case by (simp add: facet_normal_def)
next
  case (5 T hsh j e c s)
  then show ?case by (auto split: option.splits)
next
  case (6 T hsh j x0 x1 s)
  from "6.prems"(1) obtain f s1 ii s2 where
    f: "visit T hsh x0 s = Inr (f, s1)" and ii: "visit T hsh x1 s1 = Inr (ii, s2)"
    and sd: "spatial_derivative T (SpatialDerivative j x0 x1) f ii s2 = Inr (r, s')"
    by (auto split: sum.splits prod.splits)
  from "6.IH"(1) [OF f "6.prems"(2)] have "registry_inv hsh s1" .
  from "6.IH"(2) [OF f refl ii this] have "registry_inv hsh s2" .
  moreover from sd have "cs s' = cs s2" by (auto simp: Let_def split: if_splits)
  ultimately show ?case using registry_inv_cs by metis
next
  case (7 T hsh j n xs s)
  from "7.prems"(1) obtain ops s1 where
    ops: "visit_ops T hsh xs s = Inr (ops, s1)"
    and er: "expr_rule hsh (Operator j n xs) ops s1 = Inr (r, s')"
    by (auto simp del: expr_rule.simps split: sum.splits prod.splits)
  from "7.IH" [OF ops "7.prems"(2)] have "registry_inv hsh s1" .
  from expr_rule_inv [OF this er] show ?case .
next
  case (8 T hsh s)
  then show ?case by simp
next
  case (9 T hsh x xs s)
  from "9.prems"(1) obtain r1 s1 rs1 where
    x: "visit T hsh x s = Inr (r1, s1)" and xs: "visit_ops T hsh xs s1 = Inr (rs1, s')"
    by (auto split: sum.splits prod.splits)
  from "9.IH"(1) [OF x "9.prems"(2)] have "registry_inv hsh s1" .
  from "9.IH"(2) [OF x refl xs this] show ?case .
qed

lemma handle_inv:
  assumes "handle T hsh v s = Inr (vi, s')" and "registry_inv hsh s"
  shows "registry_inv hsh s'"
proof (cases v)
  case (Variable j e c)
  show ?thesis
  proof (cases "variableinfo (cs s) c")
    case (Some a)
    with assms Variable show ?thesis by simp
  next
    case None
    with assms Variable obtain e' d s1 where
      v: "visit T hsh e s = Inr ((e', d), s1)"
      and r: "register_expression hsh e' d (Some c) s1 = (vi, s')"
      by (auto split: sum.splits prod.splits)
    from visit_inv(1) [OF v assms(2)] have "registry_inv hsh s1" .
    from register_expression_inv [OF this r] show ?thesis .
  qed
qed (use assms in auto)

text \<open>A handled variable is stored under its own label.\<close>

lemma handle_stored:
  assumes "handle T hsh v s = Inr (vi, s')"
  shows "\<exists>c. label_of v = Some c \<and> variableinfo (cs s') c = Some vi"
proof (cases v)
  case (Variable j e c)
  show ?thesis
  proof (cases "variableinfo (cs s) c")
    case (Some a)
    with assms Variable show ?thesis by simp
  next
    case None
    with assms Variable obtain e' d s1 where
      r: "register_expression hsh e' d (Some c) s1 = (vi, s')"
      by (auto split: sum.splits prod.splits)
    from register_expression_cases [OF r] show ?thesis
      unfolding Variable reg_choice_def by auto
  qed
qed (use assms in auto)

lemma handle_all_inv:
  "handle_all T hsh vs cur s = Inr (vi, s') \<Longrightarrow> registry_inv hsh s \<Longrightarrow> registry_inv hsh s'"
proof (induction vs arbitrary: cur s)
  case Nil
  then show ?case by (auto split: option.splits)
next
  case (Cons v vs)
  from Cons.prems(1) obtain vi1 s1 where
    h: "handle T hsh v s = Inr (vi1, s1)" and rest: "handle_all T hsh vs (Some vi1) s1 = Inr (vi, s')"
    by (auto split: sum.splits prod.splits)
  from handle_inv [OF h Cons.prems(2)] have "registry_inv hsh s1" .
  from Cons.IH [OF rest this] show ?case .
qed

section \<open>Properties of the entry point\<close>

lemma handle_all_last:
  "handle_all T hsh vs cur s = Inr (vi, s') \<Longrightarrow> vs \<noteq> [] \<Longrightarrow>
   \<exists>c. label_of (last vs) = Some c \<and> variableinfo (cs s') c = Some vi"
proof (induction vs arbitrary: cur s)
  case Nil
  then show ?case by simp
next
  case (Cons v vs)
  from Cons.prems(1) obtain vi1 s1 where
    h: "handle T hsh v s = Inr (vi1, s1)" and rest: "handle_all T hsh vs (Some vi1) s1 = Inr (vi, s')"
    by (auto split: sum.splits prod.splits)
  show ?case
  proof (cases vs)
    case Nil
    with rest have "vi = vi1" "s' = s1" by simp_all
    with handle_stored [OF h] Nil show ?thesis by simp
  next
    case (Cons a list)
    with Cons.IH [OF rest] show ?thesis by simp
  qed
qed

text \<open>What a successful call of the entry point ran: the loop over a non-empty list of
  variables, from a state with an empty code structure.\<close>

lemma split_by_dependencies_run:
  assumes "split_by_dependencies T hsh oid0 count0 e = Inr (vi, s)"
  shows "\<exists>vs s0. vs \<noteq> [] \<and> cs s0 = CodeStructure \<and> handle_all T hsh vs None s0 = Inr (vi, s) \<and>
           (label_of e = None \<longrightarrow> label_of (last vs) = Some count0) \<and>
           (label_of e \<noteq> None \<longrightarrow> vs = extract_variables e \<and> oid (last vs) = oid e)"
proof (cases "label_of e")
  case None
  let ?vs = "extract_variables e @ [Variable oid0 e count0]"
  let ?s0 = "(DependencySplitter oid0 count0)\<lparr>next_oid := Suc oid0, globalcount := Suc count0\<rparr>"
  have "handle_all T hsh ?vs None ?s0 = Inr (vi, s)"
    using assms None by (simp add: split_by_dependencies_def DependencySplitter_def Let_def)
  moreover have "cs ?s0 = CodeStructure" by (simp add: DependencySplitter_def)
  moreover have "label_of (last ?vs) = Some count0" by simp
  ultimately show ?thesis using None by blast
next
  case (Some c)
  let ?vs = "extract_variables e"
  let ?s0 = "DependencySplitter oid0 count0"
  have ne: "?vs \<noteq> []"
    using assms Some by (cases ?vs) (simp_all add: split_by_dependencies_def Let_def)
  then obtain a as where vs: "?vs = a # as" by (cases ?vs) auto
  have o: "oid e = oid (last ?vs)"
    using assms Some vs
    by (simp add: split_by_dependencies_def Let_def split: if_splits)
  have "handle_all T hsh ?vs None ?s0 = Inr (vi, s)"
    using assms Some vs
    by (simp add: split_by_dependencies_def Let_def split: if_splits)
  moreover have "cs ?s0 = CodeStructure" by (simp add: DependencySplitter_def)
  ultimately show ?thesis using Some ne o by auto
qed

lemma split_by_dependencies_inv:
  assumes "split_by_dependencies T hsh oid0 count0 e = Inr (vi, s)"
  shows "registry_inv hsh s"
proof -
  from split_by_dependencies_run [OF assms] obtain vs s0 where
    c: "cs s0 = CodeStructure" and h: "handle_all T hsh vs None s0 = Inr (vi, s)" by blast
  have "registry_inv hsh s0"
    using c by (simp add: registry_inv_def CodeStructure_def)
  from handle_all_inv [OF h this] show ?thesis .
qed

lemma iter_ds_inject: "iter_ds a = iter_ds b \<Longrightarrow> a = b"
  by (simp add: iter_ds_def)

lemma registry_inv_stored:
  "registry_inv hsh s \<Longrightarrow> variableinfo (cs s) c = Some vi \<Longrightarrow>
   label_of (variable vi) = Some c \<and>
   (\<exists>st. stacks_get hsh (stacks (cs s)) (deps vi) = Some st \<and> vi \<in> set st)"
  by (simp add: registry_inv_def)

lemma registry_inv_stack:
  "registry_inv hsh s \<Longrightarrow> (k, st) \<in> set (stacks (cs s)) \<Longrightarrow> v \<in> set st \<Longrightarrow>
   key_match hsh k (deps v)"
  by (fastforce simp: registry_inv_def)

lemma registry_inv_distinct:
  "registry_inv hsh s \<Longrightarrow>
   distinct (concat (map snd (stacks (cs s)))) \<and> distinct (map fst (stacks (cs s)))"
  by (simp add: registry_inv_def)

text \<open>
  C10. The VariableInfo that a successful call of \<open>split_by_dependencies\<close> returns is
  stored in \<open>variableinfo\<close> under the label of its variable and is in the stack that
  \<open>stacks\<close> returns for its dependency set. The label is the fresh label of the wrapper
  when the input is not a Variable, and the label of the last extracted variable, which
  is the input object, when it is. So at least one variable is registered.
\<close>

theorem root_recorded:
  assumes "split_by_dependencies T hsh oid0 count0 e = Inr (vi, s)"
  shows "\<exists>c. label_of (variable vi) = Some c \<and> variableinfo (cs s) c = Some vi \<and>
           (\<exists>st. stacks_get hsh (stacks (cs s)) (deps vi) = Some st \<and> vi \<in> set st) \<and>
           (label_of e = None \<longrightarrow> c = count0) \<and>
           (label_of e \<noteq> None \<longrightarrow>
              oid (last (extract_variables e)) = oid e \<and>
              label_of (last (extract_variables e)) = Some c) \<and>
           dom (variableinfo (cs s)) \<noteq> {}"
proof -
  from split_by_dependencies_run [OF assms] obtain vs s0 where
    run: "vs \<noteq> [] \<and> cs s0 = CodeStructure \<and> handle_all T hsh vs None s0 = Inr (vi, s) \<and>
           (label_of e = None \<longrightarrow> label_of (last vs) = Some count0) \<and>
           (label_of e \<noteq> None \<longrightarrow> vs = extract_variables e \<and> oid (last vs) = oid e)"
    by (elim exE)
  from run have ne: "vs \<noteq> []" by (rule conjunct1)
  from run have h: "handle_all T hsh vs None s0 = Inr (vi, s)" by simp
  from run have a: "label_of e = None \<longrightarrow> label_of (last vs) = Some count0" by simp
  from run have b: "label_of e \<noteq> None \<longrightarrow> vs = extract_variables e \<and> oid (last vs) = oid e"
    by (elim conjE)
  from handle_all_last [OF h ne] obtain c where
    lr: "label_of (last vs) = Some c \<and> variableinfo (cs s) c = Some vi" by (elim exE)
  then have l: "label_of (last vs) = Some c" and r: "variableinfo (cs s) c = Some vi"
    by simp_all
  note st = registry_inv_stored [OF split_by_dependencies_inv [OF assms] r]
  have c0: "label_of e = None \<longrightarrow> c = count0" using a l by simp
  have c1: "label_of e \<noteq> None \<longrightarrow>
              oid (last (extract_variables e)) = oid e \<and>
              label_of (last (extract_variables e)) = Some c"
  proof
    assume "label_of e \<noteq> None"
    with b have v: "vs = extract_variables e" and o: "oid (last vs) = oid e" by blast+
    from o l show "oid (last (extract_variables e)) = oid e \<and>
              label_of (last (extract_variables e)) = Some c" unfolding v by (rule conjI)
  qed
  have d: "dom (variableinfo (cs s)) \<noteq> {}" using domI [of "variableinfo (cs s)" c vi, OF r] by (metis empty_iff)
  show ?thesis
    by (rule exI [of _ c]) (use st r c0 c1 d in simp)
qed

lemma registry_inv_stack_stored:
  "registry_inv hsh s \<Longrightarrow> (k, st) \<in> set (stacks (cs s)) \<Longrightarrow> v \<in> set st \<Longrightarrow>
   \<exists>c. label_of (variable v) = Some c \<and> variableinfo (cs s) c = Some v"
proof -
  assume inv: "registry_inv hsh s" and m: "(k, st) \<in> set (stacks (cs s))" and v: "v \<in> set st"
  from inv have "\<forall>(k, st) \<in> set (stacks (cs s)). \<forall>vi \<in> set st.
         key_match hsh k (deps vi) \<and>
         (\<exists>c. label_of (variable vi) = Some c \<and> variableinfo (cs s) c = Some vi)"
    by (simp add: registry_inv_def)
  from bspec [OF this m] have "\<forall>vi \<in> set st.
         key_match hsh k (deps vi) \<and>
         (\<exists>c. label_of (variable vi) = Some c \<and> variableinfo (cs s) c = Some vi)" by simp
  from bspec [OF this v] show ?thesis by (rule conjunct2)
qed

lemma distinct_count_list_one: "distinct xs \<Longrightarrow> x \<in> set xs \<Longrightarrow> count_list xs x = 1"
  by (induction xs) auto

text \<open>
  C7. After a splitting run, every VariableInfo in a stack has the dependency set that
  is the key of the stack and is the one registered under the label of its variable;
  every registered VariableInfo is in the stack whose key is its dependency set, which
  is the stack the dict returns for it, and occurs exactly once in all the stacks
  together (so it is in exactly one stack); no VariableInfo occurs twice in the stacks
  and no key occurs twice. Python's hash is a parameter of the model: the hypothesis is
  that it does not collide on the flag tuples that occur in the stacks.
\<close>

theorem grouping_correct:
  assumes "split_by_dependencies T hsh oid0 count0 e = Inr (vi, s)"
    and "inj_on hsh (iter_ds ` (fst ` set (stacks (cs s)) \<union> deps ` set (concat (map snd (stacks (cs s))))))"
  shows "(\<forall>(k, st) \<in> set (stacks (cs s)). \<forall>v \<in> set st.
            deps v = k \<and> (\<exists>c. label_of (variable v) = Some c \<and> variableinfo (cs s) c = Some v)) \<and>
         (\<forall>c v. variableinfo (cs s) c = Some v \<longrightarrow>
            (\<exists>st. (deps v, st) \<in> set (stacks (cs s)) \<and> v \<in> set st \<and>
                  stacks_get hsh (stacks (cs s)) (deps v) = Some st) \<and>
            count_list (concat (map snd (stacks (cs s)))) v = 1) \<and>
         distinct (concat (map snd (stacks (cs s)))) \<and>
         distinct (map fst (stacks (cs s)))"
proof -
  let ?D = "fst ` set (stacks (cs s)) \<union> deps ` set (concat (map snd (stacks (cs s))))"
  from split_by_dependencies_inv [OF assms(1)] have inv: "registry_inv hsh s" .
  note dist = registry_inv_distinct [OF inv]
  have eq: "deps v = k" if m: "(k, st) \<in> set (stacks (cs s))" and v: "v \<in> set st" for k st v
  proof -
    from registry_inv_stack [OF inv m v] have h: "hsh (iter_ds k) = hsh (iter_ds (deps v))"
      by (simp add: key_match_def hash_ds_def)
    have "k \<in> fst ` set (stacks (cs s))" using m by (rule image_eqI [rotated]) simp
    then have kD: "k \<in> ?D" by blast
    have "v \<in> set (concat (map snd (stacks (cs s))))"
      using m v by (simp only: set_concat set_map) (rule UN_I [of st], rule image_eqI [of _ _ "(k, st)"], simp_all)
    then have vD: "deps v \<in> ?D" by blast
    from inj_onD [OF assms(2) h imageI [OF kD] imageI [OF vD]]
    have "iter_ds k = iter_ds (deps v)" .
    then show ?thesis using iter_ds_inject by metis
  qed
  have one: "\<forall>(k, st) \<in> set (stacks (cs s)). \<forall>v \<in> set st.
            deps v = k \<and> (\<exists>c. label_of (variable v) = Some c \<and> variableinfo (cs s) c = Some v)"
  proof (intro ballI, clarify)
    fix k st v
    assume m: "(k, st) \<in> set (stacks (cs s))" and v: "v \<in> set st"
    from eq [OF m v] registry_inv_stack_stored [OF inv m v]
    show "deps v = k \<and> (\<exists>c. label_of (variable v) = Some c \<and> variableinfo (cs s) c = Some v)"
      by (intro conjI)
  qed
  have two: "\<forall>c v. variableinfo (cs s) c = Some v \<longrightarrow>
            (\<exists>st. (deps v, st) \<in> set (stacks (cs s)) \<and> v \<in> set st \<and>
                  stacks_get hsh (stacks (cs s)) (deps v) = Some st) \<and>
            count_list (concat (map snd (stacks (cs s)))) v = 1"
  proof (intro allI impI)
    fix c v
    assume r: "variableinfo (cs s) c = Some v"
    from registry_inv_stored [OF inv r] have
      "\<exists>st. stacks_get hsh (stacks (cs s)) (deps v) = Some st \<and> v \<in> set st" by (rule conjunct2)
    then obtain st where
      gv: "stacks_get hsh (stacks (cs s)) (deps v) = Some st \<and> v \<in> set st" by (elim exE)
    then have g: "stacks_get hsh (stacks (cs s)) (deps v) = Some st" and v: "v \<in> set st"
      by (rule conjunct1, rule conjunct2)
    from stacks_get_Some_mem [OF g] obtain k' where
      mk: "(k', st) \<in> set (stacks (cs s)) \<and> key_match hsh k' (deps v)" by (elim exE)
    then have m: "(k', st) \<in> set (stacks (cs s))" by (rule conjunct1)
    from eq [OF m v] have k': "k' = deps v" by simp
    have mem: "(deps v, st) \<in> set (stacks (cs s))" using m unfolding k' .
    have "v \<in> set (concat (map snd (stacks (cs s))))"
      using m v by (simp only: set_concat set_map) (rule UN_I [of st], rule image_eqI [of _ _ "(k', st)"], simp_all)
    from distinct_count_list_one [OF conjunct1 [OF dist] this]
    have cnt: "count_list (concat (map snd (stacks (cs s)))) v = 1" .
    from mem v g have "\<exists>st. (deps v, st) \<in> set (stacks (cs s)) \<and> v \<in> set st \<and>
                  stacks_get hsh (stacks (cs s)) (deps v) = Some st"
      by (intro exI [of _ st] conjI)
    with cnt show "(\<exists>st. (deps v, st) \<in> set (stacks (cs s)) \<and> v \<in> set st \<and>
                  stacks_get hsh (stacks (cs s)) (deps v) = Some st) \<and>
            count_list (concat (map snd (stacks (cs s)))) v = 1" by (intro conjI)
  qed
  from one two conjunct1 [OF dist] conjunct2 [OF dist] show ?thesis by (intro conjI)
qed

section \<open>Scenario B: the product of a literal and a basis function\<close>

lemma or_tuples_replicate_False:
  "length b = n \<Longrightarrow> or_tuples (replicate n False) b = b"
  unfolding or_tuples_def
  by (induction b arbitrary: n) auto

lemma union_empty_left:
  "length (basisfunctions d) = n \<Longrightarrow> union_ds (DependencySet (replicate n False) False False) d = d"
  by (simp add: union_ds_def DependencySet_def or_tuples_replicate_False)

lemma covers_loop_replicate_False:
  "covers_loop (zip (replicate (length b) False) b) = (\<forall>x \<in> set b. \<not> x)"
  by (induction b) simp_all

lemma ne_empty:
  assumes "length (basisfunctions d) = n"
  shows "ne_ds (DependencySet (replicate n False) False False) d = (\<exists>x \<in> set (iter_ds d). x)"
proof -
  have "covers (DependencySet (replicate n False) False False) d =
        (\<not> runtime d \<and> \<not> coordinates d \<and> (\<forall>x \<in> set (basisfunctions d). \<not> x))"
    unfolding assms [symmetric]
    by (simp add: covers_def iter_ds_def DependencySet_def covers_loop_replicate_False)
  then show ?thesis
    by (auto simp: ne_ds_covers iter_ds_def)
qed

lemma scenario_b_run:
  assumes ren: "basisfunction_renumbering T c = Some i"
    and i: "i < length (basisfunction_deps T)"
    and dv: "basisfunction_deps T ! i = dv"
    and len: "length (basisfunctions dv) = length (basisfunction_deps T)"
    and flag: "\<exists>x \<in> set (iter_ds dv). x"
    and jv: "jv < oid0"
  shows "split_by_dependencies T hsh oid0 count0
           (Operator jp n [Terminal jl (FloatValue x), BasisFunction jv c]) =
         Inr (\<lparr>variable = Variable (oid0 + 3)
                  (Operator (oid0 + 2) n
                     [Terminal jl (FloatValue x), Variable (oid0 + 1) (BasisFunction jv c) (count0 + 1)])
                  count0,
                deps = dv\<rparr>,
              \<lparr>cs = \<lparr>variableinfo =
                       [count0 + 1 \<mapsto> \<lparr>variable = Variable (oid0 + 1) (BasisFunction jv c) (count0 + 1), deps = dv\<rparr>,
                        count0 \<mapsto> \<lparr>variable = Variable (oid0 + 3)
                           (Operator (oid0 + 2) n
                              [Terminal jl (FloatValue x), Variable (oid0 + 1) (BasisFunction jv c) (count0 + 1)])
                           count0, deps = dv\<rparr>],
                     stacks =
                       [(dv, [\<lparr>variable = Variable (oid0 + 1) (BasisFunction jv c) (count0 + 1), deps = dv\<rparr>,
                              \<lparr>variable = Variable (oid0 + 3)
                                 (Operator (oid0 + 2) n
                                    [Terminal jl (FloatValue x), Variable (oid0 + 1) (BasisFunction jv c) (count0 + 1)])
                                 count0, deps = dv\<rparr>])]\<rparr>,
               next_oid = oid0 + 4, globalcount = count0 + 2\<rparr>)"
proof -
  let ?lit = "Terminal jl (FloatValue x)"
  let ?v = "BasisFunction jv c"
  let ?e = "DependencySet (replicate (length (basisfunction_deps T)) False) False False"
  let ?sa = "\<lparr>cs = CodeStructure, next_oid = Suc oid0, globalcount = Suc count0\<rparr>"
  let ?viv = "\<lparr>variable = Variable (Suc oid0) ?v (Suc count0), deps = dv\<rparr>"
  let ?sb = "\<lparr>cs = \<lparr>variableinfo = [Suc count0 \<mapsto> ?viv], stacks = [(dv, [?viv])]\<rparr>,
              next_oid = Suc (Suc oid0), globalcount = Suc (Suc count0)\<rparr>"
  let ?new = "Operator (Suc (Suc oid0)) n [?lit, Variable (Suc oid0) ?v (Suc count0)]"
  let ?sc = "?sb\<lparr>next_oid := Suc (Suc (Suc oid0))\<rparr>"
  have ext: "extract_variables (Operator jp n [?lit, ?v]) = []"
    by (simp add: extract_variables_def)
  have ops: "visit_ops T hsh [?lit, ?v] ?sa = Inr ([(?lit, ?e), (?v, dv)], ?sa)"
    using ren i dv by (simp add: terminal_def make_empty_deps_def)
  have comb: "combine [(?lit, ?e), (?v, dv)] = Some dv"
    using len by (simp add: union_empty_left)
  have ne: "ne_ds ?e dv"
    using ne_empty [OF len] flag by simp
  have reg: "register_expression hsh ?v dv None ?sa = (?viv, ?sb)"
    by (simp add: register_expression_def CodeStructure_def Let_def)
  have prom: "promote hsh [(?lit, ?e), (?v, dv)] ?sa = ([(?lit, ?e), (Variable (Suc oid0) ?v (Suc count0), dv)], ?sb)"
    using reg by simp
  have er: "expr_rule hsh (Operator jp n [?lit, ?v]) [(?lit, ?e), (?v, dv)] ?sa = Inr ((?new, dv), ?sc)"
    using comb ne prom jv by simp
  have vis: "visit T hsh (Operator jp n [?lit, ?v]) ?sa = Inr ((?new, dv), ?sc)"
    using ops er by (simp del: expr_rule.simps)
  have reg2: "register_expression hsh ?new dv (Some count0) ?sc =
      (\<lparr>variable = Variable (Suc (Suc (Suc oid0))) ?new count0, deps = dv\<rparr>,
       \<lparr>cs = \<lparr>variableinfo = [Suc count0 \<mapsto> ?viv,
                  count0 \<mapsto> \<lparr>variable = Variable (Suc (Suc (Suc oid0))) ?new count0, deps = dv\<rparr>],
               stacks = [(dv, [?viv, \<lparr>variable = Variable (Suc (Suc (Suc oid0))) ?new count0, deps = dv\<rparr>])]\<rparr>,
         next_oid = Suc (Suc (Suc (Suc oid0))), globalcount = Suc (Suc count0)\<rparr>)"
    by (simp add: register_expression_def key_match_refl Let_def)
  have h: "handle T hsh (Variable oid0 (Operator jp n [?lit, ?v]) count0) ?sa =
      Inr (register_expression hsh ?new dv (Some count0) ?sc)"
    using vis by (simp add: CodeStructure_def del: visit.simps)
  show ?thesis
    unfolding split_by_dependencies_def ext
    using h reg2
    by (simp add: DependencySplitter_def eval_nat_numeral del: handle.simps visit.simps)
qed

section \<open>The examples, run\<close>

lemma ex_run: "split_by_dependencies ex_T ex_hsh 3 0 ex_prod = Inr (ex_vi_root, ex_final)"
  using scenario_b_run [of ex_T 7 0 "DependencySet [True, False] False False" 1 3 ex_hsh 0 2 "''Product''" 0 "''1.23''"]
  by (simp add: ex_T_def ex_prod_def ex_vi_root_def ex_final_def ex_vi_v_def DependencySet_def iter_ds_def)

lemma ex_key_mismatch:
  "\<not> key_match ex_hsh (DependencySet [True, False] False False) (DependencySet [False, True] False False)"
  "\<not> key_match ex_hsh (DependencySet [True, False] False False) (DependencySet [True, True] False False)"
  "\<not> key_match ex_hsh (DependencySet [False, True] False False) (DependencySet [True, True] False False)"
  by (simp_all add: key_match_def hash_ds_def ex_hsh_def iter_ds_def DependencySet_def)

lemma ex_visit_uv:
  "visit ex_T ex_hsh ex_uv ex_sa =
     Inr ((Operator 6 ''Product'' [Variable 4 (BasisFunction 0 7) 1, Variable 5 (BasisFunction 1 8) 2],
           DependencySet [True, True] False False), ex_sd)"
proof -
  let ?v = "BasisFunction 0 7"
  let ?u = "BasisFunction 1 8"
  let ?dv = "DependencySet [True, False] False False"
  let ?du = "DependencySet [False, True] False False"
  let ?d = "DependencySet [True, True] False False"
  let ?sb = "\<lparr>cs = \<lparr>variableinfo = [1 \<mapsto> ex_vi_a], stacks = [(?dv, [ex_vi_a])]\<rparr>,
              next_oid = 5, globalcount = 2\<rparr>"
  let ?sc = "\<lparr>cs = \<lparr>variableinfo = [1 \<mapsto> ex_vi_a, 2 \<mapsto> ex_vi_b],
                    stacks = [(?dv, [ex_vi_a]), (?du, [ex_vi_b])]\<rparr>,
              next_oid = 6, globalcount = 3\<rparr>"
  let ?new = "Operator 6 ''Product'' [Variable 4 ?v 1, Variable 5 ?u 2]"
  have ops: "visit_ops ex_T ex_hsh [?v, ?u] ex_sa = Inr ([(?v, ?dv), (?u, ?du)], ex_sa)"
    by (simp add: ex_T_def)
  have comb: "combine [(?v, ?dv), (?u, ?du)] = Some ?d"
    by (simp add: union_ds_def DependencySet_def or_tuples_def)
  have ne: "ne_ds ?dv ?d"
    by (simp add: ne_ds_def cmp_ds_def iter_ds_def DependencySet_def)
  have reg1: "register_expression ex_hsh ?v ?dv None ex_sa = (ex_vi_a, ?sb)"
    by (simp add: register_expression_def CodeStructure_def Let_def ex_vi_a_def ex_sa_def)
  have reg2: "register_expression ex_hsh ?u ?du None ?sb = (ex_vi_b, ?sc)"
    using ex_key_mismatch(1)
    by (simp add: register_expression_def Let_def ex_vi_b_def)
  have prom: "promote ex_hsh [(?v, ?dv), (?u, ?du)] ex_sa = ([(Variable 4 ?v 1, ?dv), (Variable 5 ?u 2, ?du)], ?sc)"
    using reg1 reg2 by (simp add: ex_vi_a_def ex_vi_b_def)
  have er: "expr_rule ex_hsh ex_uv [(?v, ?dv), (?u, ?du)] ex_sa = Inr ((?new, ?d), ex_sd)"
    unfolding ex_uv_def using comb ne prom by (simp add: ex_sd_def)
  show ?thesis
    using ops er unfolding ex_uv_def by (simp del: expr_rule.simps)
qed

lemma ex_run_uv: "split_by_dependencies ex_T ex_hsh 3 0 ex_uv = Inr (ex_vi_uv, ex_final_uv)"
proof -
  let ?d = "DependencySet [True, True] False False"
  let ?new = "Operator 6 ''Product'' [Variable 4 (BasisFunction 0 7) 1, Variable 5 (BasisFunction 1 8) 2]"
  have ext: "extract_variables ex_uv = []"
    by (simp add: extract_variables_def ex_uv_def)
  have reg3: "register_expression ex_hsh ?new ?d (Some 0) ex_sd = (ex_vi_uv, ex_final_uv)"
    using ex_key_mismatch(2,3)
    by (simp add: register_expression_def Let_def ex_vi_uv_def ex_final_uv_def ex_sd_def)
  have h: "handle ex_T ex_hsh (Variable 3 ex_uv 0) ex_sa = Inr (ex_vi_uv, ex_final_uv)"
    using ex_visit_uv reg3 by (simp add: CodeStructure_def ex_sa_def del: visit.simps)
  have lab: "label_of ex_uv = None" by (simp add: ex_uv_def)
  show ?thesis
    unfolding split_by_dependencies_def ext
    using h lab
    by (simp add: DependencySplitter_def ex_sa_def del: handle.simps visit.simps)
qed

section \<open>Scenario B and the examples, checked\<close>

text \<open>
  C2, as stated, fails: splitting \<open>1.23 * v\<close> registers two variables, the root under
  label 0 and a variable that wraps the operand \<open>v\<close> under label 1.
\<close>

theorem scenario_b_registers_operand:
  "split_by_dependencies ex_T ex_hsh 3 0 ex_prod = Inr (ex_vi_root, ex_final) \<and>
   deps ex_vi_root = DependencySet [True, False] False False \<and>
   variableinfo (cs ex_final) 0 = Some ex_vi_root \<and>
   variableinfo (cs ex_final) 1 = Some ex_vi_v \<and>
   variable ex_vi_v = Variable 4 (BasisFunction 1 7) 1 \<and>
   dom (variableinfo (cs ex_final)) = {0, 1} \<and>
   dom (variableinfo (cs ex_final)) \<noteq> {0}"
  using ex_run
  by (auto simp: ex_final_def ex_vi_root_def ex_vi_v_def)

text \<open>
  C2, amended. Splitting \<open>1.23 * v\<close>, where \<open>v\<close> is the basis function of slot 0 with the
  dependency set \<open>basisfunctions = (True, False, ...)\<close> of as many flags as there are basis
  functions, yields the dependency set of \<open>v\<close> and registers exactly two variables: the
  root, and one variable that wraps \<open>v\<close> with the dependency set of \<open>v\<close> (the all-false
  set of the literal differs from the combined set, so the operands are promoted); the
  literal stays as it is. The objects of the input exist before the call
  (\<open>jv < oid0\<close>).
\<close>

theorem scenario_b:
  assumes "basisfunction_renumbering T c = Some 0"
    and "basisfunction_deps T ! 0 = DependencySet (True # replicate m False) rt co"
    and "length (basisfunction_deps T) = Suc m"
    and "jv < oid0"
  shows "\<exists>vi s. split_by_dependencies T hsh oid0 count0
             (Operator jp n [Terminal jl (FloatValue x), BasisFunction jv c]) = Inr (vi, s) \<and>
           deps vi = DependencySet (True # replicate m False) rt co \<and>
           variable vi =
             Variable (oid0 + 3)
               (Operator (oid0 + 2) n
                  [Terminal jl (FloatValue x), Variable (oid0 + 1) (BasisFunction jv c) (count0 + 1)])
               count0 \<and>
           dom (variableinfo (cs s)) = {count0, count0 + 1} \<and>
           variableinfo (cs s) count0 = Some vi \<and>
           variableinfo (cs s) (count0 + 1) =
             Some \<lparr>variable = Variable (oid0 + 1) (BasisFunction jv c) (count0 + 1),
                   deps = DependencySet (True # replicate m False) rt co\<rparr>"
proof -
  let ?dv = "DependencySet (True # replicate m False) rt co"
  have i: "0 < length (basisfunction_deps T)" using assms(3) by simp
  have len: "length (basisfunctions ?dv) = length (basisfunction_deps T)"
    using assms(3) by (simp add: DependencySet_def)
  have flag: "\<exists>x \<in> set (iter_ds ?dv). x"
    by (simp add: iter_ds_def DependencySet_def)
  note run = scenario_b_run [OF assms(1) i assms(2) len flag assms(4), of hsh count0 jp n jl x]
  show ?thesis
    unfolding run by (intro exI conjI refl) (auto split: if_splits)
qed

theorem scenario_b_witness:
  "basisfunction_renumbering ex_T 7 = Some 0 \<and>
   basisfunction_deps ex_T ! 0 = DependencySet (True # replicate 1 False) False False \<and>
   length (basisfunction_deps ex_T) = Suc 1 \<and> (1::nat) < 3 \<and>
   (\<exists>vi s. split_by_dependencies ex_T ex_hsh 3 0 ex_prod = Inr (vi, s) \<and>
      deps vi = DependencySet [True, False] False False \<and>
      variable vi =
        Variable 6 (Operator 5 ''Product''
          [Terminal 0 (FloatValue ''1.23''), Variable 4 (BasisFunction 1 7) 1]) 0 \<and>
      dom (variableinfo (cs s)) = {0, 1} \<and>
      variableinfo (cs s) 0 = Some vi \<and>
      variableinfo (cs s) 1 =
        Some \<lparr>variable = Variable 4 (BasisFunction 1 7) 1, deps = DependencySet [True, False] False False\<rparr>)"
proof -
  have a: "basisfunction_renumbering ex_T 7 = Some 0" by (simp add: ex_T_def)
  have b: "basisfunction_deps ex_T ! 0 = DependencySet (True # replicate 1 False) False False"
    by (simp add: ex_T_def)
  have c: "length (basisfunction_deps ex_T) = Suc 1" by (simp add: ex_T_def)
  have d: "(1::nat) < 3" by simp
  from scenario_b [OF a b c d, of ex_hsh 0 2 "''Product''" 0 "''1.23''"] a b c d
  show ?thesis by (simp add: ex_prod_def eval_nat_numeral)
qed

theorem root_recorded_witness:
  "split_by_dependencies ex_T ex_hsh 3 0 ex_prod = Inr (ex_vi_root, ex_final) \<and>
   label_of (variable ex_vi_root) = Some 0 \<and> variableinfo (cs ex_final) 0 = Some ex_vi_root \<and>
   stacks_get ex_hsh (stacks (cs ex_final)) (deps ex_vi_root) = Some [ex_vi_v, ex_vi_root] \<and>
   label_of ex_prod = None \<and> dom (variableinfo (cs ex_final)) \<noteq> {}"
proof -
  from root_recorded [OF ex_run] have "dom (variableinfo (cs ex_final)) \<noteq> {}" by blast
  with ex_run show ?thesis
    by (simp add: ex_final_def ex_vi_root_def ex_prod_def key_match_refl)
qed

theorem grouping_correct_witness:
  "split_by_dependencies ex_T ex_hsh 3 0 ex_uv = Inr (ex_vi_uv, ex_final_uv) \<and>
   inj_on ex_hsh (iter_ds ` (fst ` set (stacks (cs ex_final_uv)) \<union>
     deps ` set (concat (map snd (stacks (cs ex_final_uv)))))) \<and>
   stacks (cs ex_final_uv) =
     [(deps ex_vi_a, [ex_vi_a]), (deps ex_vi_b, [ex_vi_b]), (deps ex_vi_uv, [ex_vi_uv])] \<and>
   variableinfo (cs ex_final_uv) 1 = Some ex_vi_a \<and>
   variableinfo (cs ex_final_uv) 2 = Some ex_vi_b \<and>
   variableinfo (cs ex_final_uv) 0 = Some ex_vi_uv \<and>
   count_list (concat (map snd (stacks (cs ex_final_uv)))) ex_vi_a = 1 \<and>
   count_list (concat (map snd (stacks (cs ex_final_uv)))) ex_vi_b = 1 \<and>
   count_list (concat (map snd (stacks (cs ex_final_uv)))) ex_vi_uv = 1 \<and>
   distinct (concat (map snd (stacks (cs ex_final_uv)))) \<and>
   distinct (map fst (stacks (cs ex_final_uv)))"
proof -
  have inj: "inj_on ex_hsh (iter_ds ` (fst ` set (stacks (cs ex_final_uv)) \<union>
     deps ` set (concat (map snd (stacks (cs ex_final_uv))))))"
    by (simp add: ex_final_uv_def ex_vi_a_def ex_vi_b_def ex_vi_uv_def iter_ds_def
        DependencySet_def ex_hsh_def)
  have st: "stacks (cs ex_final_uv) =
     [(deps ex_vi_a, [ex_vi_a]), (deps ex_vi_b, [ex_vi_b]), (deps ex_vi_uv, [ex_vi_uv])]"
    by (simp add: ex_final_uv_def ex_vi_a_def ex_vi_b_def ex_vi_uv_def)
  have r1: "variableinfo (cs ex_final_uv) 1 = Some ex_vi_a"
    and r2: "variableinfo (cs ex_final_uv) 2 = Some ex_vi_b"
    and r0: "variableinfo (cs ex_final_uv) 0 = Some ex_vi_uv"
    by (simp_all add: ex_final_uv_def)
  note th = grouping_correct [OF ex_run_uv inj]
  note all = conjunct1 [OF conjunct2 [OF th]]
  note d1 = conjunct1 [OF conjunct2 [OF conjunct2 [OF th]]]
  note d2 = conjunct2 [OF conjunct2 [OF conjunct2 [OF th]]]
  note c1 = conjunct2 [OF mp [OF spec [OF spec [OF all, of 1], of ex_vi_a] r1]]
  note c2 = conjunct2 [OF mp [OF spec [OF spec [OF all, of 2], of ex_vi_b] r2]]
  note c0 = conjunct2 [OF mp [OF spec [OF spec [OF all, of 0], of ex_vi_uv] r0]]
  from ex_run_uv inj st r1 r2 r0 c1 c2 c0 d1 d2 show ?thesis by (intro conjI)
qed

section \<open>The combined dependency set of a node\<close>


lemma length_union:
  "length (basisfunctions a) = n \<Longrightarrow> length (basisfunctions b) = n \<Longrightarrow>
   length (basisfunctions (union_ds a b)) = n"
  by (simp add: union_ds_def DependencySet_def or_tuples_def)



lemma length_foldl_union:
  "length (basisfunctions a) = n \<Longrightarrow> \<forall>x \<in> set ds. length (basisfunctions x) = n \<Longrightarrow>
   length (basisfunctions (foldl union_ds a ds)) = n"
  by (induction ds arbitrary: a) (simp_all add: length_union)





section \<open>The states a run reaches\<close>

lemma vinfo_eta: "\<lparr>variable = variable vi, deps = deps vi\<rparr> = vi"
  by simp

lemma label_not_skip: "label_of e = Some c \<Longrightarrow> \<not> is_skiptype e"
  by (cases e) auto

lemma out_ok_mono:
  assumes "out_ok T s p" and "variableinfo (cs s) \<subseteq>\<^sub>m variableinfo (cs s')"
  shows "out_ok T s' p"
proof -
  have "variableinfo (cs s') c = Some \<lparr>variable = fst p, deps = snd p\<rparr>"
    if l: "label_of (fst p) = Some c" for c
  proof -
    from assms(1) l have m: "variableinfo (cs s) c = Some \<lparr>variable = fst p, deps = snd p\<rparr>"
      by (simp add: out_ok_def)
    then have "c \<in> dom (variableinfo (cs s))" by (simp add: dom_def)
    with assms(2) m show ?thesis by (simp add: map_le_def)
  qed
  with assms(1) show ?thesis by (simp add: out_ok_def)
qed

lemma run_inv_cong:
  "cs s' = cs s \<Longrightarrow> globalcount s \<le> globalcount s' \<Longrightarrow> next_oid s \<le> next_oid s' \<Longrightarrow>
   run_inv T oid0 s \<Longrightarrow> run_inv T oid0 s'"
  by (fastforce simp: run_inv_def)

lemma run_inv_stored:
  "run_inv T oid0 s \<Longrightarrow> variableinfo (cs s) c = Some vi \<Longrightarrow>
   label_of (variable vi) = Some c \<and> c < globalcount s \<and> oid0 \<le> oid (variable vi) \<and>
   length (basisfunctions (deps vi)) = length (basisfunction_deps T)"
  by (simp add: run_inv_def)

lemma run_inv_fresh: "run_inv T oid0 s \<Longrightarrow> variableinfo (cs s) (globalcount s) = None"
proof (rule ccontr)
  assume inv: "run_inv T oid0 s" and "variableinfo (cs s) (globalcount s) \<noteq> None"
  then obtain vi where "variableinfo (cs s) (globalcount s) = Some vi" by auto
  from run_inv_stored [OF inv this] show False by simp
qed

lemma run_inv_insert:
  assumes inv: "run_inv T oid0 s"
    and lab: "label_of v = Some c" and oid: "oid0 \<le> oid v"
    and len: "length (basisfunctions d) = length (basisfunction_deps T)"
    and cs: "variableinfo (cs s') = (variableinfo (cs s))(c \<mapsto> \<lparr>variable = v, deps = d\<rparr>)"
    and gc: "globalcount s \<le> globalcount s'" "c < globalcount s'"
    and no: "next_oid s \<le> next_oid s'"
  shows "run_inv T oid0 s'"
proof -
  have "label_of (variable vi) = Some c' \<and> c' < globalcount s' \<and> oid0 \<le> oid (variable vi) \<and>
        length (basisfunctions (deps vi)) = length (basisfunction_deps T)"
    if a: "variableinfo (cs s') c' = Some vi" for c' vi
  proof (cases "c' = c")
    case True
    with a cs have "vi = \<lparr>variable = v, deps = d\<rparr>" by simp
    with True lab oid len gc show ?thesis by simp
  next
    case False
    with a cs have "variableinfo (cs s) c' = Some vi" by simp
    from run_inv_stored [OF inv this] gc show ?thesis by simp
  qed
  moreover have "oid0 \<le> next_oid s'" using inv no by (simp add: run_inv_def)
  ultimately show ?thesis by (simp add: run_inv_def)
qed

text \<open>Registering a visited operand during promotion.\<close>

lemma register_operand:
  assumes inv: "run_inv T oid0 s" and ok: "out_ok T s (e, d)"
    and r: "register_expression hsh e d None s = (vi, s')"
  shows "run_inv T oid0 s' \<and> variableinfo (cs s) \<subseteq>\<^sub>m variableinfo (cs s') \<and> deps vi = d \<and>
         ((label_of e \<noteq> None \<and> variable vi = e) \<or>
          (label_of e = None \<and> variable vi = Variable (next_oid s) e (globalcount s))) \<and>
         (\<exists>c. label_of (variable vi) = Some c \<and> variableinfo (cs s') c = Some vi)"
proof -
  from register_expression_cases [OF r] obtain v c where
    lab: "label_of v = Some c" and ch: "reg_choice e None s s' v c"
    and or: "(variableinfo (cs s) c = Some vi \<and> cs s' = cs s) \<or>
            (variableinfo (cs s) c = None \<and> vi = \<lparr>variable = v, deps = d\<rparr> \<and>
             cs s' = \<lparr>variableinfo = (variableinfo (cs s))(c \<mapsto> vi),
                      stacks = stacks_append hsh (stacks (cs s)) d vi\<rparr>)" by blast
  from ok have len: "length (basisfunctions d) = length (basisfunction_deps T)"
    by (simp add: out_ok_def)
  show ?thesis
  proof (cases "label_of e")
    case (Some c')
    with ch have c: "c' = c" and v: "v = e" and no: "next_oid s' = next_oid s"
      and gc: "globalcount s' = globalcount s" by (auto simp: reg_choice_def)
    from ok Some c have st: "variableinfo (cs s) c = Some \<lparr>variable = e, deps = d\<rparr>"
      by (simp add: out_ok_def)
    with or have vi: "vi = \<lparr>variable = e, deps = d\<rparr>" and cs: "cs s' = cs s" by auto
    have "run_inv T oid0 s'" using run_inv_cong [OF cs _ _ inv] no gc by simp
    moreover have "variableinfo (cs s) \<subseteq>\<^sub>m variableinfo (cs s')" using cs by simp
    moreover have "label_of (variable vi) = Some c \<and> variableinfo (cs s') c = Some vi"
      using vi st cs Some c by simp
    moreover have "label_of e \<noteq> None \<and> variable vi = e" using vi Some by simp
    ultimately show ?thesis using vi by auto
  next
    case None
    with ch have c: "c = globalcount s" and v: "v = Variable (next_oid s) e c"
      and no: "next_oid s' = Suc (next_oid s)" and gc: "globalcount s' = Suc (globalcount s)"
      by (auto simp: reg_choice_def)
    from run_inv_fresh [OF inv] c have fr: "variableinfo (cs s) c = None" by simp
    with or have vi: "vi = \<lparr>variable = v, deps = d\<rparr>"
      and cs: "cs s' = \<lparr>variableinfo = (variableinfo (cs s))(c \<mapsto> vi),
                      stacks = stacks_append hsh (stacks (cs s)) d vi\<rparr>" by auto
    have vcs: "variableinfo (cs s') = (variableinfo (cs s))(c \<mapsto> \<lparr>variable = v, deps = d\<rparr>)"
      using cs vi by simp
    have o: "oid0 \<le> oid v" using inv v by (simp add: run_inv_def)
    have "run_inv T oid0 s'"
      using run_inv_insert [OF inv lab o len vcs] gc c no by simp
    moreover have "variableinfo (cs s) \<subseteq>\<^sub>m variableinfo (cs s')"
      using vcs fr by (simp add: map_le_def dom_def)
    moreover have "label_of (variable vi) = Some c \<and> variableinfo (cs s') c = Some vi"
      using vi lab vcs by simp
    moreover have "label_of e = None \<and> variable vi = Variable (next_oid s) e (globalcount s)"
      using vi v c None by simp
    ultimately show ?thesis using vi by auto
  qed
qed

lemma promoted_mono:
  assumes "promoted s p p'" and "variableinfo (cs s) \<subseteq>\<^sub>m variableinfo (cs s')"
  shows "promoted s' p p'"
proof (cases "is_skiptype (fst p)")
  case True
  with assms(1) show ?thesis by (simp add: promoted_def)
next
  case False
  with assms(1) obtain c where sn: "snd p' = snd p"
    and w: "(label_of (fst p) \<noteq> None \<and> fst p' = fst p) \<or>
            (label_of (fst p) = None \<and> (\<exists>i c. fst p' = Variable i (fst p) c))"
    and l: "label_of (fst p') = Some c"
    and m: "variableinfo (cs s) c = Some \<lparr>variable = fst p', deps = snd p\<rparr>"
    by (auto simp: promoted_def)
  from m have "c \<in> dom (variableinfo (cs s))" by (simp add: dom_def)
  with assms(2) m have "variableinfo (cs s') c = Some \<lparr>variable = fst p', deps = snd p\<rparr>"
    by (simp add: map_le_def)
  with l have "\<exists>c. label_of (fst p') = Some c \<and>
      variableinfo (cs s') c = Some \<lparr>variable = fst p', deps = snd p\<rparr>" by simp
  with False sn w show ?thesis unfolding promoted_def by simp
qed

lemma promote_props:
  assumes "run_inv T oid0 s" and "\<forall>p \<in> set ops. out_ok T s p"
    and "promote hsh ops s = (ops', s')"
  shows "run_inv T oid0 s' \<and> variableinfo (cs s) \<subseteq>\<^sub>m variableinfo (cs s') \<and>
         list_all2 (promoted s') ops ops'"
  using assms
proof (induction ops arbitrary: s ops' s')
  case Nil
  then show ?case by simp
next
  case (Cons p ops)
  show ?case
  proof (cases "is_skiptype (fst p)")
    case True
    obtain r sr where pr: "promote hsh ops s = (r, sr)" by (cases "promote hsh ops s")
    with Cons.prems(3) True have o: "ops' = p # r" and s': "s' = sr" by simp_all
    from Cons.prems(2) have "\<forall>q \<in> set ops. out_ok T s q" by simp
    from Cons.IH [OF Cons.prems(1) this pr] have
      ih: "run_inv T oid0 sr \<and> variableinfo (cs s) \<subseteq>\<^sub>m variableinfo (cs sr) \<and>
         list_all2 (promoted sr) ops r" .
    have "promoted sr p p" using True by (simp add: promoted_def)
    with ih o s' show ?thesis by simp
  next
    case False
    obtain vi s1 where reg: "register_expression hsh (fst p) (snd p) None s = (vi, s1)"
      by (cases "register_expression hsh (fst p) (snd p) None s")
    obtain r sr where pr: "promote hsh ops s1 = (r, sr)" by (cases "promote hsh ops s1")
    from Cons.prems(3) False reg pr have o: "ops' = (variable vi, deps vi) # r" and s': "s' = sr"
      by simp_all
    from Cons.prems(2) have okp: "out_ok T s (fst p, snd p)" by simp
    from register_operand [OF Cons.prems(1) okp reg] obtain c where
      inv1: "run_inv T oid0 s1" and le1: "variableinfo (cs s) \<subseteq>\<^sub>m variableinfo (cs s1)"
      and dv: "deps vi = snd p"
      and w: "(label_of (fst p) \<noteq> None \<and> variable vi = fst p) \<or>
          (label_of (fst p) = None \<and> variable vi = Variable (next_oid s) (fst p) (globalcount s))"
      and l: "label_of (variable vi) = Some c"
      and m: "variableinfo (cs s1) c = Some vi" by blast
    have "\<forall>q \<in> set ops. out_ok T s1 q"
      using Cons.prems(2) le1 out_ok_mono by auto
    from Cons.IH [OF inv1 this pr] have
      ih: "run_inv T oid0 sr \<and> variableinfo (cs s1) \<subseteq>\<^sub>m variableinfo (cs sr) \<and>
         list_all2 (promoted sr) ops r" .
    have "vi = \<lparr>variable = variable vi, deps = snd p\<rparr>" using dv by simp
    with m have "variableinfo (cs s1) c = Some \<lparr>variable = variable vi, deps = snd p\<rparr>" by simp
    with l have reg': "\<exists>c. label_of (variable vi) = Some c \<and>
        variableinfo (cs s1) c = Some \<lparr>variable = variable vi, deps = snd p\<rparr>" by blast
    from w have w': "(label_of (fst p) \<noteq> None \<and> variable vi = fst p) \<or>
          (label_of (fst p) = None \<and> (\<exists>i c. variable vi = Variable i (fst p) c))" by blast
    from False dv w' reg' have "promoted s1 p (variable vi, deps vi)"
      unfolding promoted_def by simp
    with ih have "promoted sr p (variable vi, deps vi)" using promoted_mono by blast
    moreover have "variableinfo (cs s) \<subseteq>\<^sub>m variableinfo (cs sr)"
      using le1 ih map_le_trans by blast
    ultimately show ?thesis using ih o s' by simp
  qed
qed




text \<open>What a successful call of the generic rule did.\<close>

lemma expr_rule_cases:
  assumes "expr_rule hsh (Operator j n xs) ops s = Inr ((e, d), s')"
  shows "\<exists>a ds ops1 s1. ops = a # ds \<and> d = foldl union_ds (snd a) (map snd ds) \<and>
           (if list_ex (\<lambda>p. ne_ds (snd p) d) ops then promote hsh ops s = (ops1, s1)
            else ops1 = ops \<and> s1 = s) \<and>
           ((e = Operator j n xs \<and> s' = s1 \<and>
             list_all (\<lambda>(a, b). oid a = oid b) (zip (map fst ops1) xs)) \<or>
            (e = Operator (next_oid s1) n (map fst ops1) \<and>
             s' = s1\<lparr>next_oid := Suc (next_oid s1)\<rparr> \<and>
             \<not> list_all (\<lambda>(a, b). oid a = oid b) (zip (map fst ops1) xs)))"
proof (cases ops)
  case Nil
  with assms show ?thesis by simp
next
  case (Cons a ds)
  let ?d = "foldl union_ds (snd a) (map snd ds)"
  show ?thesis
  proof (cases "list_ex (\<lambda>p. ne_ds (snd p) ?d) ops")
    case True
    obtain ops1 s1 where pr: "promote hsh ops s = (ops1, s1)" by (cases "promote hsh ops s")
    from assms Cons True pr have d: "d = ?d"
      by (auto simp: Let_def split: if_splits)
    from assms Cons True pr show ?thesis
      unfolding d
      by (intro exI [of _ a] exI [of _ ds] exI [of _ ops1] exI [of _ s1])
        (auto simp: Let_def split: if_splits)
  next
    case False
    from assms Cons False have d: "d = ?d"
      by (auto simp: Let_def split: if_splits)
    from assms Cons False show ?thesis
      unfolding d
      by (intro exI [of _ a] exI [of _ ds] exI [of _ ops] exI [of _ s])
        (auto simp: Let_def split: if_splits)
  qed
qed


lemma expr_rule_state:
  assumes inv: "run_inv T oid0 s" and ok: "\<forall>p \<in> set ops. out_ok T s p"
    and er: "expr_rule hsh (Operator j n xs) ops s = Inr ((e, d), s')"
  shows "run_inv T oid0 s' \<and> variableinfo (cs s) \<subseteq>\<^sub>m variableinfo (cs s') \<and> out_ok T s' (e, d)"
proof -
  from expr_rule_cases [OF er] obtain a ds ops1 s1 where
    ops: "ops = a # ds" and d: "d = foldl union_ds (snd a) (map snd ds)"
    and pr: "if list_ex (\<lambda>p. ne_ds (snd p) d) ops then promote hsh ops s = (ops1, s1)
            else ops1 = ops \<and> s1 = s"
    and res: "(e = Operator j n xs \<and> s' = s1 \<and>
             list_all (\<lambda>(a, b). oid a = oid b) (zip (map fst ops1) xs)) \<or>
            (e = Operator (next_oid s1) n (map fst ops1) \<and>
             s' = s1\<lparr>next_oid := Suc (next_oid s1)\<rparr> \<and>
             \<not> list_all (\<lambda>(a, b). oid a = oid b) (zip (map fst ops1) xs))" by blast
  have s1: "run_inv T oid0 s1 \<and> variableinfo (cs s) \<subseteq>\<^sub>m variableinfo (cs s1)"
  proof (cases "list_ex (\<lambda>p. ne_ds (snd p) d) ops")
    case True
    with pr have "promote hsh ops s = (ops1, s1)" by simp
    from promote_props [OF inv ok this] show ?thesis by simp
  next
    case False
    with pr inv show ?thesis by simp
  qed
  have s': "run_inv T oid0 s' \<and> variableinfo (cs s) \<subseteq>\<^sub>m variableinfo (cs s')"
    using res
  proof
    assume "e = Operator j n xs \<and> s' = s1 \<and>
             list_all (\<lambda>(a, b). oid a = oid b) (zip (map fst ops1) xs)"
    with s1 show ?thesis by simp
  next
    assume "e = Operator (next_oid s1) n (map fst ops1) \<and>
             s' = s1\<lparr>next_oid := Suc (next_oid s1)\<rparr> \<and>
             \<not> list_all (\<lambda>(a, b). oid a = oid b) (zip (map fst ops1) xs)"
    then have eq: "s' = s1\<lparr>next_oid := Suc (next_oid s1)\<rparr>" by simp
    have "run_inv T oid0 s'"
      by (rule run_inv_cong [of s' s1]) (use eq s1 in simp_all)
    with eq s1 show ?thesis by simp
  qed
  have la: "length (basisfunctions (snd a)) = length (basisfunction_deps T)"
    using ok ops by (simp add: out_ok_def)
  have ld: "\<forall>x \<in> set (map snd ds). length (basisfunctions x) = length (basisfunction_deps T)"
    using ok ops by (auto simp: out_ok_def)
  have len: "length (basisfunctions d) = length (basisfunction_deps T)"
    unfolding d using la ld by (rule length_foldl_union)
  have "label_of e = None \<and> \<not> is_skiptype e" using res by auto
  with len have "out_ok T s' (e, d)" by (simp add: out_ok_def)
  with s' show ?thesis by simp
qed

lemma out_ok_empty: "label_of x = None \<Longrightarrow> out_ok T s (x, make_empty_deps T)"
  by (simp add: out_ok_def make_empty_deps_def DependencySet_def)

lemma visit_props:
  "visit T hsh x s = Inr (p, s') \<Longrightarrow> wf_tables T \<Longrightarrow> run_inv T oid0 s \<Longrightarrow>
   run_inv T oid0 s' \<and> variableinfo (cs s) \<subseteq>\<^sub>m variableinfo (cs s') \<and> out_ok T s' p"
  "visit_ops T hsh xs s = Inr (ps, s') \<Longrightarrow> wf_tables T \<Longrightarrow> run_inv T oid0 s \<Longrightarrow>
   run_inv T oid0 s' \<and> variableinfo (cs s) \<subseteq>\<^sub>m variableinfo (cs s') \<and> (\<forall>p \<in> set ps. out_ok T s' p)"
proof (induction T hsh x s and T hsh xs s arbitrary: p s' and ps s' rule: visit_visit_ops.induct)
  case (1 T hsh j k s)
  then show ?case by (auto simp: terminal_def out_ok_empty)
next
  case (2 T hsh j c s)
  from "2.prems"(1) obtain i where i: "i < length (basisfunction_deps T)"
    and p: "p = (BasisFunction j c, basisfunction_deps T ! i)" and s: "s' = s"
    by (auto split: option.splits if_splits)
  from i "2.prems"(2) have "length (basisfunctions (basisfunction_deps T ! i)) = length (basisfunction_deps T)"
    by (simp add: wf_tables_def)
  with p s "2.prems"(3) show ?case by (simp add: out_ok_def)
next
  case (3 T hsh j c s)
  from "3.prems"(1) obtain i where i: "i < length (function_deps T)"
    and p: "p = (Function j c, function_deps T ! i)" and s: "s' = s"
    by (auto split: option.splits if_splits)
  from i "3.prems"(2) have "length (basisfunctions (function_deps T ! i)) = length (basisfunction_deps T)"
    by (simp add: wf_tables_def)
  with p s "3.prems"(3) show ?case by (simp add: out_ok_def)
next
  case (4 T hsh j s)
  then show ?case
    by (auto simp: facet_normal_def out_ok_def make_empty_deps_def DependencySet_def)
next
  case (5 T hsh j e c s)
  from "5.prems"(1) obtain vi where st: "variableinfo (cs s) c = Some vi"
    and p: "p = (variable vi, deps vi)" and s: "s' = s"
    by (auto split: option.splits)
  from run_inv_stored [OF "5.prems"(3) st] have
    l: "label_of (variable vi) = Some c"
    and len: "length (basisfunctions (deps vi)) = length (basisfunction_deps T)" by simp_all
  have "out_ok T s (variable vi, deps vi)"
    using l len st label_not_skip [OF l] by (simp add: out_ok_def)
  with p s "5.prems"(3) show ?case by simp
next
  case (6 T hsh j x0 x1 s)
  from "6.prems"(1) obtain f s1 ii s2 where
    f: "visit T hsh x0 s = Inr (f, s1)" and ii: "visit T hsh x1 s1 = Inr (ii, s2)"
    and sd: "spatial_derivative T (SpatialDerivative j x0 x1) f ii s2 = Inr (p, s')"
    by (auto split: sum.splits prod.splits)
  from "6.IH"(1) [OF f "6.prems"(2,3)] have
    a: "run_inv T oid0 s1" "variableinfo (cs s) \<subseteq>\<^sub>m variableinfo (cs s1)" "out_ok T s1 f"
    by simp_all
  from "6.IH"(2) [OF f refl ii "6.prems"(2) a(1)] have
    b: "run_inv T oid0 s2" "variableinfo (cs s1) \<subseteq>\<^sub>m variableinfo (cs s2)" by simp_all
  from sd have c: "cs s' = cs s2" "globalcount s2 \<le> globalcount s'" "next_oid s2 \<le> next_oid s'"
    by (auto simp: Let_def split: if_splits)
  have inv: "run_inv T oid0 s'" using run_inv_cong [OF c b(1)] .
  have le: "variableinfo (cs s) \<subseteq>\<^sub>m variableinfo (cs s')"
    using a(2) b(2) c(1) map_le_trans by fastforce
  have lf: "length (basisfunctions (snd f)) = length (basisfunction_deps T)"
    using a(3) by (simp add: out_ok_def)
  have le0: "length (basisfunctions ((make_empty_deps T)\<lparr>runtime := True\<rparr>)) = length (basisfunction_deps T)"
    by (simp add: make_empty_deps_def DependencySet_def)
  from sd have "label_of (fst p) = None \<and> \<not> is_skiptype (fst p) \<and>
      snd p = union_ds (snd f) ((make_empty_deps T)\<lparr>runtime := True\<rparr>)"
    by (auto simp: Let_def split: if_splits)
  with length_union [OF lf le0] have "out_ok T s' p" by (simp add: out_ok_def)
  with inv le show ?case by simp
next
  case (7 T hsh j n xs s)
  from "7.prems"(1) obtain ops s1 where
    ops: "visit_ops T hsh xs s = Inr (ops, s1)"
    and er: "expr_rule hsh (Operator j n xs) ops s1 = Inr (p, s')"
    by (auto simp del: expr_rule.simps split: sum.splits prod.splits)
  from "7.IH" [OF ops "7.prems"(2,3)] have
    a: "run_inv T oid0 s1" "variableinfo (cs s) \<subseteq>\<^sub>m variableinfo (cs s1)"
      "\<forall>p \<in> set ops. out_ok T s1 p" by simp_all
  obtain e d where p: "p = (e, d)" by (cases p)
  from expr_rule_state [OF a(1) a(3) er [unfolded p]] p a(2) show ?case
    using map_le_trans by fastforce
next
  case (8 T hsh s)
  then show ?case by simp
next
  case (9 T hsh x xs s)
  from "9.prems"(1) obtain r1 s1 rs1 where
    x: "visit T hsh x s = Inr (r1, s1)" and xs: "visit_ops T hsh xs s1 = Inr (rs1, s')"
    and ps: "ps = r1 # rs1"
    by (auto split: sum.splits prod.splits)
  from "9.IH"(1) [OF x "9.prems"(2,3)] have
    a: "run_inv T oid0 s1" "variableinfo (cs s) \<subseteq>\<^sub>m variableinfo (cs s1)" "out_ok T s1 r1"
    by simp_all
  from "9.IH"(2) [OF x refl xs "9.prems"(2) a(1)] have
    b: "run_inv T oid0 s'" "variableinfo (cs s1) \<subseteq>\<^sub>m variableinfo (cs s')"
      "\<forall>p \<in> set rs1. out_ok T s' p" by simp_all
  have "out_ok T s' r1" using out_ok_mono [OF a(3) b(2)] .
  moreover have "variableinfo (cs s) \<subseteq>\<^sub>m variableinfo (cs s')"
    using a(2) b(2) map_le_trans by blast
  ultimately show ?case using b ps by simp
qed

section \<open>The generic rule\<close>

lemma run_inv_init: "run_inv T oid0 (DependencySplitter oid0 count0)"
  by (simp add: run_inv_def DependencySplitter_def CodeStructure_def)



lemma register_root:
  assumes inv: "run_inv T oid0 s"
    and len: "length (basisfunctions d) = length (basisfunction_deps T)"
    and r: "register_expression hsh e d (Some c) s = (vi, s')"
  shows "run_inv T oid0 s'"
proof -
  from register_expression_cases [OF r] obtain v c' where
    lab: "label_of v = Some c'" and ch: "reg_choice e (Some c) s s' v c'"
    and or: "(variableinfo (cs s) c' = Some vi \<and> cs s' = cs s) \<or>
            (variableinfo (cs s) c' = None \<and> vi = \<lparr>variable = v, deps = d\<rparr> \<and>
             cs s' = \<lparr>variableinfo = (variableinfo (cs s))(c' \<mapsto> vi),
                      stacks = stacks_append hsh (stacks (cs s)) d vi\<rparr>)" by blast
  from ch have c: "c' = c" and v: "v = Variable (next_oid s) e c"
    and no: "next_oid s' = Suc (next_oid s)" and gc: "globalcount s' = max (globalcount s) (Suc c)"
    by (auto simp: reg_choice_def)
  from or show ?thesis
  proof
    assume "variableinfo (cs s) c' = Some vi \<and> cs s' = cs s"
    then have "cs s' = cs s" by simp
    from run_inv_cong [OF this _ _ inv] no gc show ?thesis by simp
  next
    assume a: "variableinfo (cs s) c' = None \<and> vi = \<lparr>variable = v, deps = d\<rparr> \<and>
             cs s' = \<lparr>variableinfo = (variableinfo (cs s))(c' \<mapsto> vi),
                      stacks = stacks_append hsh (stacks (cs s)) d vi\<rparr>"
    then have vcs: "variableinfo (cs s') = (variableinfo (cs s))(c' \<mapsto> \<lparr>variable = v, deps = d\<rparr>)"
      by simp
    have o: "oid0 \<le> oid v" using inv v by (simp add: run_inv_def)
    from run_inv_insert [OF inv lab o len vcs] gc c no show ?thesis by simp
  qed
qed

text \<open>The invariant holds when the splitter is created and after each handled variable:
  the states in which nodes are visited satisfy it.\<close>

lemma handle_run_inv:
  assumes "handle T hsh v s = Inr (vi, s')" and "wf_tables T" and "run_inv T oid0 s"
  shows "run_inv T oid0 s'"
proof (cases v)
  case (Variable j e c)
  show ?thesis
  proof (cases "variableinfo (cs s) c")
    case (Some a)
    with assms Variable show ?thesis by simp
  next
    case None
    with assms(1) Variable obtain e' d s1 where
      v: "visit T hsh e s = Inr ((e', d), s1)"
      and r: "register_expression hsh e' d (Some c) s1 = (vi, s')"
      by (auto split: sum.splits prod.splits)
    from visit_props(1) [OF v assms(2,3)] have inv1: "run_inv T oid0 s1"
      and "out_ok T s1 (e', d)" by simp_all
    then have "length (basisfunctions d) = length (basisfunction_deps T)"
      by (simp add: out_ok_def)
    from register_root [OF inv1 this r] show ?thesis .
  qed
qed (use assms in auto)


end
